theory Spec2Isabelle
  imports Main "HOL-Library.Word"
begin

section \<open>Machine model\<close>

text \<open>
  The library is C compiled for an LP64 target: \<open>size_t\<close> and every pointer are 64-bit
  unsigned words whose arithmetic wraps, \<open>uint8_t\<close> is a byte.  The structures own no
  storage; each holds a pointer into caller memory, so the memory is modelled as one flat
  store from addresses to bytes, and every operation takes the struct (a record) together
  with the store and returns the updated ones.  An access outside the caller's region is
  an access to the store at that address: the C functions check nothing, and neither does
  the model.

  A call that cannot return normally returns a \<open>fault\<close> instead: an integer division
  or remainder by zero, a \<open>memcpy\<close> that reads more bytes than the caller's value object
  holds, and a \<open>memcpy\<close> that writes more bytes than a local array holds.
\<close>

type_synonym addr = "64 word"
type_synonym byte = "8 word"
type_synonym heap = "addr \<Rightarrow> byte"

datatype fault = DivisionByZero | ReadPastObject | WritePastObject

definition NULL :: addr where
  "NULL = 0"

text \<open>The bytes of the region of \<open>n\<close> bytes that starts at \<open>a\<close>: address \<open>x\<close> lies in
  it when its distance from \<open>a\<close> is below \<open>n\<close> (word arithmetic, so a region may wrap).\<close>

definition region :: "addr \<Rightarrow> 64 word \<Rightarrow> addr set" where
  "region a n = {x. x - a < n}"

text \<open>A counting loop \<open>for (i = 0; i < n; i++)\<close> on \<open>size_t\<close> makes progress: below the
  bound the increment does not wrap.\<close>

lemma probe_decreases:
  fixes i n :: "64 word"
  shows "i < n \<Longrightarrow> unat n - unat (i + 1) < unat n - unat i"
  by unat_arith

section \<open>RingQueue: \<open>circular_buffer.h\<close>\<close>

record circular_buffer_t =
  cb_buffer :: addr
  cb_size :: "64 word"
  cb_head :: "64 word"
  cb_tail :: "64 word"
  cb_count :: "64 word"

definition cb_init :: "addr \<Rightarrow> 64 word \<Rightarrow> circular_buffer_t" where
  "cb_init buffer sz =
     \<lparr>cb_buffer = buffer, cb_size = sz, cb_head = 0, cb_tail = 0, cb_count = 0\<rparr>"

definition cb_is_empty :: "circular_buffer_t \<Rightarrow> bool" where
  "cb_is_empty cb = (cb_count cb = 0)"

definition cb_is_full :: "circular_buffer_t \<Rightarrow> bool" where
  "cb_is_full cb = (cb_count cb = cb_size cb)"

text \<open>\<open>cb_write\<close> returns the boolean of the C function with the struct and the store
  after the call.  The remainder \<open>% cb->size\<close> traps when the size is zero.\<close>

definition cb_write ::
  "circular_buffer_t \<Rightarrow> heap \<Rightarrow> byte \<Rightarrow> fault + (bool \<times> circular_buffer_t \<times> heap)" where
  "cb_write cb h data =
     (if cb_is_full cb then Inr (False, cb, h)
      else if cb_size cb = 0 then Inl DivisionByZero
      else Inr (True,
                cb\<lparr>cb_head := (cb_head cb + 1) mod cb_size cb,
                   cb_count := cb_count cb + 1\<rparr>,
                h(cb_buffer cb + cb_head cb := data)))"

text \<open>\<open>cb_read\<close> writes \<open>*data\<close> only when it returns true: the result \<open>Some d\<close> is
  "true, with \<open>*data = d\<close>", and \<open>None\<close> is "false, \<open>*data\<close> untouched".  It never writes
  the store.\<close>

definition cb_read ::
  "circular_buffer_t \<Rightarrow> heap \<Rightarrow> fault + (byte option \<times> circular_buffer_t)" where
  "cb_read cb h =
     (if cb_is_empty cb then Inr (None, cb)
      else if cb_size cb = 0 then Inl DivisionByZero
      else Inr (Some (h (cb_buffer cb + cb_tail cb)),
                cb\<lparr>cb_tail := (cb_tail cb + 1) mod cb_size cb,
                   cb_count := cb_count cb - 1\<rparr>))"

definition cb_available_space :: "circular_buffer_t \<Rightarrow> 64 word" where
  "cb_available_space cb = cb_size cb - cb_count cb"

definition cb_data_count :: "circular_buffer_t \<Rightarrow> 64 word" where
  "cb_data_count cb = cb_count cb"

text \<open>A caller that writes the bytes of a list one after the other and collects the
  results, and one that reads \<open>n\<close> times.\<close>

fun cb_write_all ::
  "circular_buffer_t \<Rightarrow> heap \<Rightarrow> byte list \<Rightarrow> fault + (bool list \<times> circular_buffer_t \<times> heap)" where
  "cb_write_all cb h [] = Inr ([], cb, h)"
| "cb_write_all cb h (w # ws) =
     (case cb_write cb h w of
        Inl e \<Rightarrow> Inl e
      | Inr (ok, cb', h') \<Rightarrow>
          (case cb_write_all cb' h' ws of
             Inl e \<Rightarrow> Inl e
           | Inr (oks, cb'', h'') \<Rightarrow> Inr (ok # oks, cb'', h'')))"

fun cb_read_n ::
  "circular_buffer_t \<Rightarrow> heap \<Rightarrow> nat \<Rightarrow> fault + (byte option list \<times> circular_buffer_t)" where
  "cb_read_n cb h 0 = Inr ([], cb)"
| "cb_read_n cb h (Suc n) =
     (case cb_read cb h of
        Inl e \<Rightarrow> Inl e
      | Inr (r, cb') \<Rightarrow>
          (case cb_read_n cb' h n of
             Inl e \<Rightarrow> Inl e
           | Inr (rs, cb'') \<Rightarrow> Inr (r # rs, cb'')))"

section \<open>ArenaAllocator: \<open>stack_allocator.h\<close>\<close>

record stack_allocator_t =
  sa_memory :: addr
  sa_size :: "64 word"
  sa_top :: "64 word"

definition stack_init :: "addr \<Rightarrow> 64 word \<Rightarrow> stack_allocator_t" where
  "stack_init memory sz = \<lparr>sa_memory = memory, sa_size = sz, sa_top = 0\<rparr>"

text \<open>The arena never reads or writes the backing bytes, so its operations act on the
  struct alone.  \<open>stack_alloc\<close> returns the pointer of the C function (\<open>NULL\<close> on
  failure); the sum \<open>sa->top + bytes\<close> is a \<open>size_t\<close> sum and wraps.\<close>

definition stack_alloc :: "stack_allocator_t \<Rightarrow> 64 word \<Rightarrow> addr \<times> stack_allocator_t" where
  "stack_alloc sa bytes =
     (if sa_top sa + bytes > sa_size sa then (NULL, sa)
      else (sa_memory sa + sa_top sa, sa\<lparr>sa_top := sa_top sa + bytes\<rparr>))"

definition stack_free_to :: "stack_allocator_t \<Rightarrow> addr \<Rightarrow> stack_allocator_t" where
  "stack_free_to sa ptr = sa\<lparr>sa_top := ptr - sa_memory sa\<rparr>"

definition stack_reset :: "stack_allocator_t \<Rightarrow> stack_allocator_t" where
  "stack_reset sa = sa\<lparr>sa_top := 0\<rparr>"


section \<open>PoolAllocator: \<open>memory_pool.h\<close>\<close>

text \<open>A free block holds, in its first eight bytes, the address of the next free block:
  \<open>*(void **)block\<close>.  Pointers are stored little-endian.\<close>

fun le_bytes :: "nat \<Rightarrow> nat \<Rightarrow> byte list" where
  "le_bytes 0 v = []"
| "le_bytes (Suc n) v = of_nat (v mod 256) # le_bytes n (v div 256)"

fun from_le :: "byte list \<Rightarrow> nat" where
  "from_le [] = 0"
| "from_le (b # bs) = unat b + 256 * from_le bs"

definition write_bytes :: "heap \<Rightarrow> addr \<Rightarrow> byte list \<Rightarrow> heap" where
  "write_bytes h a bs = (\<lambda>x. if unat (x - a) < length bs then bs ! unat (x - a) else h x)"

definition read_bytes :: "heap \<Rightarrow> addr \<Rightarrow> nat \<Rightarrow> byte list" where
  "read_bytes h a n = map (\<lambda>i. h (a + of_nat i)) [0..<n]"

definition store_ptr :: "heap \<Rightarrow> addr \<Rightarrow> addr \<Rightarrow> heap" where
  "store_ptr h a p = write_bytes h a (le_bytes 8 (unat p))"

definition load_ptr :: "heap \<Rightarrow> addr \<Rightarrow> addr" where
  "load_ptr h a = of_nat (from_le (read_bytes h a 8))"

record memory_pool_t =
  mp_memory :: addr
  mp_total_size :: "64 word"
  mp_block_size :: "64 word"
  mp_free_list :: addr

text \<open>The linking loop of \<open>mp_init\<close>, \<open>for (size_t i = 0; i < num_blocks - 1; i++)\<close>.
  The bound \<open>num_blocks - 1\<close> is a \<open>size_t\<close> difference.  Beside the store the loop
  carries a counter of the link fields written so far; the counter is not part of the C
  state and is there only so that the number of linking steps can be stated.\<close>

function mp_init_loop ::
  "addr \<Rightarrow> 64 word \<Rightarrow> 64 word \<Rightarrow> 64 word \<Rightarrow> heap \<times> nat \<Rightarrow> heap \<times> nat" where
  "mp_init_loop memory block_size num_blocks i (h, k) =
     (if i < num_blocks - 1
      then mp_init_loop memory block_size num_blocks (i + 1)
             (store_ptr h (memory + i * block_size) (memory + (i + 1) * block_size), Suc k)
      else (h, k))"
  by pat_completeness auto
termination
  by (relation "measure (\<lambda>(memory, block_size, num_blocks, i, s). unat (num_blocks - 1) - unat i)")
     (simp_all add: probe_decreases)

declare mp_init_loop.simps [simp del]

text \<open>\<open>mp_init\<close> returns the pool, the store and the number of link fields it wrote (the
  loop's, and the \<open>NULL\<close> link of the last block).  \<open>total_size / block_size\<close> traps
  when the block size is zero.\<close>

definition mp_init ::
  "addr \<Rightarrow> 64 word \<Rightarrow> 64 word \<Rightarrow> heap \<Rightarrow> fault + (memory_pool_t \<times> heap \<times> nat)" where
  "mp_init memory total_size block_size h =
     (if block_size = 0 then Inl DivisionByZero
      else
        let num_blocks = total_size div block_size;
            (h1, k) = mp_init_loop memory block_size num_blocks 0 (h, 0);
            last_block = memory + (num_blocks - 1) * block_size
        in Inr (\<lparr>mp_memory = memory, mp_total_size = total_size,
                  mp_block_size = block_size, mp_free_list = memory\<rparr>,
                store_ptr h1 last_block NULL, Suc k))"

text \<open>\<open>mp_alloc\<close> returns the block (\<open>NULL\<close> when the chain is empty) and the pool; it
  reads the store and does not write it.\<close>

definition mp_alloc :: "memory_pool_t \<Rightarrow> heap \<Rightarrow> addr \<times> memory_pool_t" where
  "mp_alloc mp h =
     (if mp_free_list mp = NULL then (NULL, mp)
      else (mp_free_list mp, mp\<lparr>mp_free_list := load_ptr h (mp_free_list mp)\<rparr>))"

definition mp_free :: "memory_pool_t \<Rightarrow> heap \<Rightarrow> addr \<Rightarrow> memory_pool_t \<times> heap" where
  "mp_free mp h block = (mp\<lparr>mp_free_list := block\<rparr>, store_ptr h block (mp_free_list mp))"

section \<open>FixedMap: \<open>fixed_hash_table.h\<close>\<close>

record fixed_hash_table_t =
  ht_memory :: addr
  ht_table_size :: "64 word"
  ht_max_key_length :: "64 word"
  ht_value_size :: "64 word"
  ht_bucket_size :: "64 word"

subsection \<open>The C library functions the table calls\<close>

text \<open>A \<open>const char *\<close> argument is given by the bytes it points to: the list holds the
  characters, the terminating \<open>NUL\<close> follows the list, and a zero byte inside the list
  ends the string there.\<close>

definition cstr :: "byte list \<Rightarrow> byte list" where
  "cstr s = takeWhile (\<lambda>c. c \<noteq> 0) s"

definition memset :: "heap \<Rightarrow> addr \<Rightarrow> byte \<Rightarrow> 64 word \<Rightarrow> heap" where
  "memset h dst c n = (\<lambda>x. if x - dst < n then c else h x)"

text \<open>\<open>memcpy\<close> from a caller's object, given by its bytes, into the store.\<close>

definition memcpy :: "heap \<Rightarrow> addr \<Rightarrow> byte list \<Rightarrow> 64 word \<Rightarrow> heap" where
  "memcpy h dst src n = (\<lambda>x. if x - dst < n then src ! unat (x - dst) else h x)"

text \<open>\<open>strncpy\<close> writes exactly \<open>n\<close> bytes: the characters of the string, then zeros.\<close>

definition strncpy :: "heap \<Rightarrow> addr \<Rightarrow> byte list \<Rightarrow> 64 word \<Rightarrow> heap" where
  "strncpy h dst src n =
     (\<lambda>x. if x - dst < n
          then (if unat (x - dst) < length (cstr src) then cstr src ! unat (x - dst) else 0)
          else h x)"

text \<open>\<open>strcmp\<close> of the string stored at an address with a string argument: the
  difference of the first pair of bytes that differ, zero when both end together.\<close>

fun strcmp :: "heap \<Rightarrow> addr \<Rightarrow> byte list \<Rightarrow> int" where
  "strcmp h a [] = uint (h a)"
| "strcmp h a (c # cs) =
     (if h a \<noteq> c then uint (h a) - uint c
      else if c = 0 then 0
      else strcmp h (a + 1) cs)"

subsection \<open>The table\<close>

definition ht_init :: "addr \<Rightarrow> 64 word \<Rightarrow> 64 word \<Rightarrow> 64 word \<Rightarrow> heap \<Rightarrow> fixed_hash_table_t \<times> heap" where
  "ht_init memory table_size max_key_length value_size h =
     (let ht = \<lparr>ht_memory = memory, ht_table_size = table_size,
                 ht_max_key_length = max_key_length, ht_value_size = value_size,
                 ht_bucket_size = max_key_length + value_size + 1\<rparr>
      in (ht, memset h memory 0 (table_size * ht_bucket_size ht)))"

text \<open>\<open>hash = hash * 31 + *key\<close>: \<open>char\<close> is signed on the targets the header compiles
  for (it uses glibc's \<open>u_int8_t\<close>), so the character is sign-extended to \<open>size_t\<close>.\<close>

fun hash_loop :: "64 word \<Rightarrow> byte list \<Rightarrow> 64 word" where
  "hash_loop hash [] = hash"
| "hash_loop hash (c # cs) = (if c = 0 then hash else hash_loop (hash * 31 + scast c) cs)"

definition hash_function :: "byte list \<Rightarrow> 64 word" where
  "hash_function key = hash_loop 0 key"

definition bucket_addr :: "fixed_hash_table_t \<Rightarrow> 64 word \<Rightarrow> addr" where
  "bucket_addr ht current_index = ht_memory ht + current_index * ht_bucket_size ht"

definition occupied_flag :: "fixed_hash_table_t \<Rightarrow> 64 word \<Rightarrow> addr" where
  "occupied_flag ht current_index =
     bucket_addr ht current_index + ht_max_key_length ht + ht_value_size ht"

text \<open>The store after \<open>ht_put\<close> has filled a bucket: key, terminator, value, flag.\<close>

definition fill_bucket :: "fixed_hash_table_t \<Rightarrow> heap \<Rightarrow> 64 word \<Rightarrow> byte list \<Rightarrow> byte list \<Rightarrow> heap" where
  "fill_bucket ht h current_index key val =
     (let bucket = bucket_addr ht current_index;
          h1 = strncpy h bucket key (ht_max_key_length ht - 1);
          h2 = h1(bucket + (ht_max_key_length ht - 1) := 0);
          h3 = memcpy h2 (bucket + ht_max_key_length ht) val (ht_value_size ht)
      in h3(occupied_flag ht current_index := 1))"

function ht_put_loop ::
  "fixed_hash_table_t \<Rightarrow> heap \<Rightarrow> byte list \<Rightarrow> byte list \<Rightarrow> 64 word \<Rightarrow> 64 word \<Rightarrow> fault + (bool \<times> heap)" where
  "ht_put_loop ht h key val index i =
     (if i < ht_table_size ht then
        let current_index = (index + i) mod ht_table_size ht in
        if h (occupied_flag ht current_index) = 0 \<or> strcmp h (bucket_addr ht current_index) key = 0
        then (if length val < unat (ht_value_size ht) then Inl ReadPastObject
              else Inr (True, fill_bucket ht h current_index key val))
        else ht_put_loop ht h key val index (i + 1)
      else Inr (False, h))"
  by pat_completeness auto
termination
  by (relation "measure (\<lambda>(ht, h, key, val, index, i). unat (ht_table_size ht) - unat i)")
     (simp_all add: probe_decreases)

declare ht_put_loop.simps [simp del]

definition ht_put ::
  "fixed_hash_table_t \<Rightarrow> heap \<Rightarrow> byte list \<Rightarrow> byte list \<Rightarrow> fault + (bool \<times> heap)" where
  "ht_put ht h key val =
     (if ht_table_size ht = 0 then Inl DivisionByZero
      else ht_put_loop ht h key val (hash_function key mod ht_table_size ht) 0)"

text \<open>\<open>ht_get\<close> returns \<open>Some\<close> of the \<open>value_size\<close> bytes it copied into the caller's
  buffer when it returns true, \<open>None\<close> when it returns false.  It never writes the store.\<close>

function ht_get_loop ::
  "fixed_hash_table_t \<Rightarrow> heap \<Rightarrow> byte list \<Rightarrow> 64 word \<Rightarrow> 64 word \<Rightarrow> byte list option" where
  "ht_get_loop ht h key index i =
     (if i < ht_table_size ht then
        let current_index = (index + i) mod ht_table_size ht in
        if h (occupied_flag ht current_index) = 0 then None
        else if strcmp h (bucket_addr ht current_index) key = 0
        then Some (read_bytes h (bucket_addr ht current_index + ht_max_key_length ht)
                     (unat (ht_value_size ht)))
        else ht_get_loop ht h key index (i + 1)
      else None)"
  by pat_completeness auto
termination
  by (relation "measure (\<lambda>(ht, h, key, index, i). unat (ht_table_size ht) - unat i)")
     (simp_all add: probe_decreases)

declare ht_get_loop.simps [simp del]

definition ht_get :: "fixed_hash_table_t \<Rightarrow> heap \<Rightarrow> byte list \<Rightarrow> fault + byte list option" where
  "ht_get ht h key =
     (if ht_table_size ht = 0 then Inl DivisionByZero
      else Inr (ht_get_loop ht h key (hash_function key mod ht_table_size ht) 0))"

function ht_remove_loop ::
  "fixed_hash_table_t \<Rightarrow> heap \<Rightarrow> byte list \<Rightarrow> 64 word \<Rightarrow> 64 word \<Rightarrow> bool \<times> heap" where
  "ht_remove_loop ht h key index i =
     (if i < ht_table_size ht then
        let current_index = (index + i) mod ht_table_size ht in
        if h (occupied_flag ht current_index) = 0 then (False, h)
        else if strcmp h (bucket_addr ht current_index) key = 0
        then (True, h(occupied_flag ht current_index := 0))
        else ht_remove_loop ht h key index (i + 1)
      else (False, h))"
  by pat_completeness auto
termination
  by (relation "measure (\<lambda>(ht, h, key, index, i). unat (ht_table_size ht) - unat i)")
     (simp_all add: probe_decreases)

declare ht_remove_loop.simps [simp del]

definition ht_remove :: "fixed_hash_table_t \<Rightarrow> heap \<Rightarrow> byte list \<Rightarrow> fault + (bool \<times> heap)" where
  "ht_remove ht h key =
     (if ht_table_size ht = 0 then Inl DivisionByZero
      else Inr (ht_remove_loop ht h key (hash_function key mod ht_table_size ht) 0))"

text \<open>\<open>ht_contains\<close> lets \<open>ht_get\<close> copy the value into a local array of 16 bytes.\<close>

definition ht_contains :: "fixed_hash_table_t \<Rightarrow> heap \<Rightarrow> byte list \<Rightarrow> fault + bool" where
  "ht_contains ht h key =
     (case ht_get ht h key of
        Inl e \<Rightarrow> Inl e
      | Inr None \<Rightarrow> Inr False
      | Inr (Some v) \<Rightarrow> if 16 < ht_value_size ht then Inl WritePastObject else Inr True)"

section \<open>Facts about \<open>size_t\<close> arithmetic\<close>

text \<open>Below a bound the increment does not wrap; offsets below \<open>2^64\<close> from one base
  address are distinct addresses; sums, products and differences that stay in range are
  those of the natural numbers.\<close>

lemma unat_succ:
  fixes x n :: "64 word"
  assumes "x < n"
  shows "unat (x + 1) = Suc (unat x)"
  using assms by unat_arith

lemma unat_succ_mod:
  fixes x n :: "64 word"
  assumes "x < n"
  shows "unat ((x + 1) mod n) = (unat x + 1) mod unat n"
  using unat_succ[OF assms] by (simp add: unat_mod)

lemma addr_add_inj:
  fixes a :: addr
  assumes "i < 2 ^ 64" "j < 2 ^ 64" "a + of_nat i = a + of_nat j"
  shows "i = j"
proof -
  have "(of_nat i :: addr) = of_nat j" using assms(3) by simp
  then have "unat (of_nat i :: addr) = unat (of_nat j :: addr)" by simp
  then show ?thesis using assms(1,2) by (simp add: unat_of_nat)
qed

lemma mod_shift_neq:
  fixes t i j n :: nat
  assumes "i < j" "j < n"
  shows "(t + i) mod n \<noteq> (t + j) mod n"
proof
  assume "(t + i) mod n = (t + j) mod n"
  then have "(t + j) mod n = (t + i) mod n" by simp
  moreover have "t + i \<le> t + j" using assms by simp
  ultimately have "n dvd (t + j) - (t + i)" by (simp add: mod_eq_dvd_iff_nat)
  then have "n dvd j - i" by simp
  moreover have "0 < j - i" "j - i < n" using assms by auto
  ultimately show False using nat_dvd_not_less by blast
qed

lemma unat_lt_2p64: "unat (x :: 64 word) < 2 ^ 64"
  using unsigned_less [of x] by simp

lemma unat_add_no_wrap:
  fixes a b :: "64 word"
  assumes "unat a + unat b < 2 ^ 64"
  shows "unat (a + b) = unat a + unat b"
  using assms by (simp add: unat_add_lem [THEN iffD1])

lemma unat_mult_no_wrap:
  fixes a b :: "64 word"
  assumes "unat a * unat b < 2 ^ 64"
  shows "unat (a * b) = unat a * unat b"
  using assms by (simp add: unat_mult_lem [THEN iffD1])

lemma unat_sub_wrap:
  fixes a b :: "64 word"
  assumes "a < b"
  shows "unat (a - b) = 2 ^ 64 + unat a - unat b"
  using assms by (simp add: unat_sub_if' word_less_nat_alt)

lemma unat_sub_no_wrap:
  fixes a b :: "64 word"
  assumes "b \<le> a"
  shows "unat (a - b) = unat a - unat b"
  using assms by (simp add: unat_sub_if' word_le_nat_alt)

section \<open>RingQueue: the FIFO law\<close>

text \<open>The invariant of the queue, and the bytes it holds, oldest first.\<close>

definition cb_inv :: "circular_buffer_t \<Rightarrow> bool" where
  "cb_inv cb \<longleftrightarrow>
     cb_tail cb < cb_size cb \<and> cb_count cb \<le> cb_size cb \<and>
     unat (cb_head cb) = (unat (cb_tail cb) + unat (cb_count cb)) mod unat (cb_size cb)"

definition cb_contents :: "circular_buffer_t \<Rightarrow> heap \<Rightarrow> byte list" where
  "cb_contents cb h =
     map (\<lambda>i. h (cb_buffer cb + of_nat ((unat (cb_tail cb) + i) mod unat (cb_size cb))))
       [0..<unat (cb_count cb)]"

lemma cb_write_step:
  assumes inv: "cb_inv cb" and nf: "cb_count cb \<noteq> cb_size cb"
  shows "\<exists>cb' h'. cb_write cb h d = Inr (True, cb', h') \<and> cb_inv cb' \<and>
           cb_contents cb' h' = cb_contents cb h @ [d] \<and>
           cb_size cb' = cb_size cb \<and> unat (cb_count cb') = Suc (unat (cb_count cb))"
proof -
  let ?N = "unat (cb_size cb)" and ?T = "unat (cb_tail cb)" and ?C = "unat (cb_count cb)"
  have lt: "cb_count cb < cb_size cb" using inv nf by (auto simp: cb_inv_def)
  have C: "?C < ?N" using lt by (simp add: word_less_nat_alt)
  have T: "?T < ?N" using inv by (simp add: cb_inv_def word_less_nat_alt)
  have N: "?N < 2 ^ 64" using unsigned_less[of "cb_size cb"] by simp
  have sz: "cb_size cb \<noteq> 0" using lt by auto
  have H: "unat (cb_head cb) = (?T + ?C) mod ?N" using inv by (simp add: cb_inv_def)
  have Hlt: "cb_head cb < cb_size cb" using H C by (simp add: word_less_nat_alt)
  define cb' where "cb' = cb\<lparr>cb_head := (cb_head cb + 1) mod cb_size cb, cb_count := cb_count cb + 1\<rparr>"
  define h' where "h' = h(cb_buffer cb + cb_head cb := d)"
  have w: "cb_write cb h d = Inr (True, cb', h')"
    using nf sz by (simp add: cb_write_def cb_is_full_def cb'_def h'_def)
  have cnt: "unat (cb_count cb') = Suc ?C"
    using unat_succ[OF lt] by (simp add: cb'_def)
  have hd': "unat (cb_head cb') = (?T + Suc ?C) mod ?N"
    using unat_succ_mod[OF Hlt] H by (simp add: cb'_def mod_Suc_eq)
  have inv': "cb_inv cb'"
    using inv hd' cnt C unfolding cb_inv_def 
    by (simp add: cb'_def word_le_nat_alt word_less_nat_alt)
  have same: "h' (cb_buffer cb + of_nat ((?T + i) mod ?N)) = h (cb_buffer cb + of_nat ((?T + i) mod ?N))"
    if "i < ?C" for i
  proof -
    have "(?T + i) mod ?N \<noteq> (?T + ?C) mod ?N" using that C by (rule mod_shift_neq)
    moreover have "(?T + i) mod ?N < 2 ^ 64" "(?T + ?C) mod ?N < 2 ^ 64"
      using N T by (auto intro: less_trans[OF mod_less_divisor])
    ultimately have "cb_buffer cb + of_nat ((?T + i) mod ?N) \<noteq> cb_buffer cb + of_nat ((?T + ?C) mod ?N)"
      using addr_add_inj by blast
    moreover have "of_nat ((?T + ?C) mod ?N) = cb_head cb" using H[symmetric] by simp
    ultimately show ?thesis by (simp add: h'_def)
  qed
  have last: "h' (cb_buffer cb + of_nat ((?T + ?C) mod ?N)) = d"
    using H[symmetric] by (simp add: h'_def)
  have "cb_contents cb' h' = cb_contents cb h @ [d]"
    using same last cnt by (simp add: cb_contents_def cb'_def)
  with w inv' cnt show ?thesis by (auto simp: cb'_def)
qed


lemma cb_read_step:
  assumes inv: "cb_inv cb" and ne: "cb_count cb \<noteq> 0"
  shows "\<exists>cb'. cb_read cb h = Inr (Some (hd (cb_contents cb h)), cb') \<and> cb_inv cb' \<and>
           cb_contents cb' h = tl (cb_contents cb h) \<and>
           cb_size cb' = cb_size cb \<and> Suc (unat (cb_count cb')) = unat (cb_count cb)"
proof -
  let ?N = "unat (cb_size cb)" and ?T = "unat (cb_tail cb)" and ?C = "unat (cb_count cb)"
  have C0: "0 < ?C" using ne by (simp add: unat_gt_0)
  have CN: "?C \<le> ?N" using inv by (simp add: cb_inv_def word_le_nat_alt)
  have Tlt: "cb_tail cb < cb_size cb" using inv by (simp add: cb_inv_def)
  have T: "?T < ?N" using Tlt by (simp add: word_less_nat_alt)
  have sz: "cb_size cb \<noteq> 0" using Tlt by auto
  have H: "unat (cb_head cb) = (?T + ?C) mod ?N" using inv by (simp add: cb_inv_def)
  define cb' where "cb' = cb\<lparr>cb_tail := (cb_tail cb + 1) mod cb_size cb, cb_count := cb_count cb - 1\<rparr>"
  have cnt: "unat (cb_count cb') = ?C - 1"
    using ne by (simp add: cb'_def unat_minus_one)
  have tl': "unat (cb_tail cb') = (?T + 1) mod ?N"
    using unat_succ_mod[OF Tlt] by (simp add: cb'_def)
  have first: "hd (cb_contents cb h) = h (cb_buffer cb + cb_tail cb)"
    using C0 T by (simp add: cb_contents_def hd_map upt_conv_Cons)
  have r: "cb_read cb h = Inr (Some (hd (cb_contents cb h)), cb')"
    using ne sz first by (simp add: cb_read_def cb_is_empty_def cb'_def)
  have hd': "unat (cb_head cb') = (unat (cb_tail cb') + unat (cb_count cb')) mod ?N"
  proof -
    have "((?T + 1) mod ?N + (?C - 1)) mod ?N = (?T + 1 + (?C - 1)) mod ?N"
      by (simp add: mod_add_left_eq)
    also have "\<dots> = (?T + ?C) mod ?N" using C0 by simp
    finally show ?thesis using H tl' cnt by (simp add: cb'_def)
  qed
  have tlt: "cb_tail cb' < cb_size cb'"
    using tl' T by (simp add: word_less_nat_alt cb'_def)
  have cle: "cb_count cb' \<le> cb_size cb'"
    using cnt CN by (simp add: word_le_nat_alt cb'_def)
  have inv': "cb_inv cb'"
    using hd' tlt cle by (simp add: cb_inv_def cb'_def)
  have idx: "((?T + 1) mod ?N + i) mod ?N = (?T + Suc i) mod ?N" for i
    by (simp add: mod_add_left_eq)
  have "cb_contents cb' h = map (\<lambda>i. h (cb_buffer cb + of_nat ((?T + Suc i) mod ?N))) [0..<?C - 1]"
    using tl' cnt idx by (simp add: cb_contents_def cb'_def)
  also have "\<dots> = map (\<lambda>i. h (cb_buffer cb + of_nat ((?T + i) mod ?N))) (map Suc [0..<?C - 1])"
    by (simp add: comp_def)
  also have "map Suc [0..<?C - 1] = [Suc 0..<?C]"
    using C0 by (simp add: map_Suc_upt)
  also have "map (\<lambda>i. h (cb_buffer cb + of_nat ((?T + i) mod ?N))) [Suc 0..<?C] = tl (cb_contents cb h)"
    using C0 by (simp add: cb_contents_def map_tl[symmetric] upt_conv_Cons)
  finally have "cb_contents cb' h = tl (cb_contents cb h)" .
  moreover have "Suc (unat (cb_count cb')) = ?C" using cnt C0 by simp
  ultimately show ?thesis using r inv' by (auto simp: cb'_def)
qed

lemma cb_contents_length: "length (cb_contents cb h) = unat (cb_count cb)"
  by (simp add: cb_contents_def)

lemma cb_write_all_ok:
  assumes "cb_inv cb" "unat (cb_count cb) + length ws \<le> unat (cb_size cb)"
  shows "\<exists>cb' h'. cb_write_all cb h ws = Inr (replicate (length ws) True, cb', h') \<and>
           cb_inv cb' \<and> cb_contents cb' h' = cb_contents cb h @ ws \<and>
           cb_size cb' = cb_size cb"
  using assms
proof (induction ws arbitrary: cb h)
  case Nil
  then show ?case by simp
next
  case (Cons w ws)
  have nf: "cb_count cb \<noteq> cb_size cb" using Cons.prems(2) by auto
  from cb_write_step[OF Cons.prems(1) nf, of h w]
  obtain cb1 h1 where 1: "cb_write cb h w = Inr (True, cb1, h1)" "cb_inv cb1"
    "cb_contents cb1 h1 = cb_contents cb h @ [w]" "cb_size cb1 = cb_size cb"
    "unat (cb_count cb1) = Suc (unat (cb_count cb))" by blast
  have "unat (cb_count cb1) + length ws \<le> unat (cb_size cb1)"
    using 1(4,5) Cons.prems(2) by simp
  from Cons.IH[OF 1(2) this, of h1]
  obtain cb2 h2 where 2: "cb_write_all cb1 h1 ws = Inr (replicate (length ws) True, cb2, h2)"
    "cb_inv cb2" "cb_contents cb2 h2 = cb_contents cb1 h1 @ ws" "cb_size cb2 = cb_size cb1"
    by blast
  show ?case using 1 2 by simp
qed

lemma cb_read_n_ok:
  assumes "cb_inv cb" "n \<le> unat (cb_count cb)"
  shows "\<exists>cb'. cb_read_n cb h n = Inr (map Some (take n (cb_contents cb h)), cb') \<and>
           cb_inv cb' \<and> cb_contents cb' h = drop n (cb_contents cb h)"
  using assms
proof (induction n arbitrary: cb)
  case 0
  then show ?case by simp
next
  case (Suc n)
  have ne: "cb_count cb \<noteq> 0" using Suc.prems(2) by auto
  from cb_read_step[OF Suc.prems(1) ne, of h]
  obtain cb1 where 1: "cb_read cb h = Inr (Some (hd (cb_contents cb h)), cb1)" "cb_inv cb1"
    "cb_contents cb1 h = tl (cb_contents cb h)"
    "Suc (unat (cb_count cb1)) = unat (cb_count cb)" by blast
  have "n \<le> unat (cb_count cb1)" using 1(4) Suc.prems(2) by simp
  from Suc.IH[OF 1(2) this]
  obtain cb2 where 2: "cb_read_n cb1 h n = Inr (map Some (take n (cb_contents cb1 h)), cb2)"
    "cb_inv cb2" "cb_contents cb2 h = drop n (cb_contents cb1 h)" by blast
  have ne': "cb_contents cb h \<noteq> []"
    using ne cb_contents_length[of cb h] by (auto simp: unat_eq_0)
  then obtain x xs where xs: "cb_contents cb h = x # xs" by (cases "cb_contents cb h") auto
  show ?case using 1 2 xs by (simp add: drop_Suc)
qed

lemma cb_init_inv: "0 < c \<Longrightarrow> cb_inv (cb_init buffer c)"
  by (simp add: cb_inv_def cb_init_def)

text \<open>C1.  For a queue of capacity \<open>c \<ge> 1\<close>, freshly initialised, and bytes
  \<open>ws = w1..wn\<close> with \<open>n \<le> c\<close>: each of the \<open>n\<close> writes returns true, and the
  \<open>n\<close> reads that follow each return true and deliver \<open>w1..wn\<close> in that order.\<close>

theorem ring_queue_fifo:
  assumes "1 \<le> c" and "length ws \<le> unat c"
  shows "\<exists>cb' h'. cb_write_all (cb_init buffer c) h ws = Inr (replicate (length ws) True, cb', h') \<and>
           (\<exists>cb''. cb_read_n cb' h' (length ws) = Inr (map Some ws, cb''))"
proof -
  have c0: "0 < c" using assms(1) by (simp add: word_less_nat_alt word_le_nat_alt)
  have inv: "cb_inv (cb_init buffer c)" using c0 by (rule cb_init_inv)
  have "unat (cb_count (cb_init buffer c)) + length ws \<le> unat (cb_size (cb_init buffer c))"
    using assms(2) by (simp add: cb_init_def)
  from cb_write_all_ok[OF inv this, of h]
  obtain cb' h' where w: "cb_write_all (cb_init buffer c) h ws = Inr (replicate (length ws) True, cb', h')"
    "cb_inv cb'" "cb_contents cb' h' = cb_contents (cb_init buffer c) h @ ws" by blast
  have e: "cb_contents (cb_init buffer c) h = []" by (simp add: cb_contents_def cb_init_def)
  have c: "cb_contents cb' h' = ws" using w(3) e by simp
  have "length ws \<le> unat (cb_count cb')" using cb_contents_length[of cb' h'] c by simp
  from cb_read_n_ok[OF w(2) this, of h'] c
  obtain cb'' where "cb_read_n cb' h' (length ws) = Inr (map Some ws, cb'')" by auto
  with w(1) show ?thesis by blast
qed

theorem ring_queue_fifo_witness:
  "(1 :: 64 word) \<le> 5 \<and> length [42, 100 :: byte] \<le> unat (5 :: 64 word) \<and>
   (\<exists>cb' h'. cb_write_all (cb_init 0x1000 5) (\<lambda>_. 0) [42, 100] = Inr ([True, True], cb', h') \<and>
      (\<exists>cb''. cb_read_n cb' h' (Suc (Suc 0)) = Inr ([Some 42, Some 100], cb'')))"
proof -
  have a: "(1 :: 64 word) \<le> 5" by simp
  have b: "length [42, 100 :: byte] \<le> unat (5 :: 64 word)" by simp
  show ?thesis
    using a b ring_queue_fifo [OF a b, of "0x1000" "\<lambda>_. 0"]
    by (simp del: cb_write_all.simps cb_read_n.simps)
qed

section \<open>ArenaAllocator: the bound check of \<open>stack_alloc\<close>\<close>

text \<open>When the sum \<open>top + bytes\<close> does not wrap, \<open>stack_alloc\<close> fails exactly when the
  request exceeds the remaining space, and otherwise hands out the region
  \<open>[top, top + bytes)\<close> of the backing memory and advances \<open>top\<close> by \<open>bytes\<close>.\<close>

lemma stack_alloc_no_wrap:
  assumes "unat (sa_top sa) + unat bytes < 2 ^ 64"
  shows "stack_alloc sa bytes =
           (if unat (sa_size sa) < unat (sa_top sa) + unat bytes then (NULL, sa)
            else (sa_memory sa + sa_top sa, sa\<lparr>sa_top := sa_top sa + bytes\<rparr>))"
    and "unat (sa_top sa + bytes) = unat (sa_top sa) + unat bytes"
proof -
  show *: "unat (sa_top sa + bytes) = unat (sa_top sa) + unat bytes"
    using assms by (simp add: unat_add_lem [THEN iffD1])
  show "stack_alloc sa bytes =
           (if unat (sa_size sa) < unat (sa_top sa) + unat bytes then (NULL, sa)
            else (sa_memory sa + sa_top sa, sa\<lparr>sa_top := sa_top sa + bytes\<rparr>))"
    using * by (simp add: stack_alloc_def word_less_nat_alt)
qed

text \<open>C5.  The claim asks \<open>stack_alloc\<close> to fail whenever \<open>top + n\<close>, taken as unbounded
  integers, exceeds the capacity.  In an arena of 100 bytes with \<open>top = 10\<close>, a request
  of \<open>2^64 - 5\<close> bytes exceeds it, but the \<open>size_t\<close> sum wraps to \<open>5\<close>: the call returns
  the non-null pointer \<open>memory + 10\<close> and moves \<open>top\<close> back to \<open>5\<close>.\<close>

theorem stack_alloc_wraps:
  "(let sa = snd (stack_alloc (stack_init 0x1000 100) 10) in
      sa_top sa = 10 \<and> sa_size sa = 100 \<and>
      unat (sa_size sa) < unat (sa_top sa) + unat (0xFFFFFFFFFFFFFFFB :: 64 word) \<and>
      stack_alloc sa 0xFFFFFFFFFFFFFFFB = (0x100A, sa\<lparr>sa_top := 5\<rparr>) \<and>
      (0x100A :: addr) \<noteq> NULL)"
  by (simp add: stack_alloc_def stack_init_def NULL_def Let_def)

section \<open>ArenaAllocator: live handles\<close>

text \<open>A handle is the pointer \<open>stack_alloc\<close> returned together with the size that was
  asked for.  The allocator keeps no record of the handles it gave out; the list of live
  handles is kept beside it, by the rules of the specification: a successful \<open>alloc\<close>
  adds its handle, \<open>free_to\<close> ends every handle allocated at or after the offset it
  rewinds to, and \<open>reset\<close> ends them all.\<close>

datatype arena_op = Alloc "64 word" | FreeTo addr | Reset

type_synonym handle = "addr \<times> 64 word"

fun arena_step :: "stack_allocator_t \<times> handle list \<Rightarrow> arena_op \<Rightarrow> stack_allocator_t \<times> handle list" where
  "arena_step (sa, live) (Alloc n) =
     (let (p, sa') = stack_alloc sa n
      in if p = NULL then (sa', live) else (sa', live @ [(p, n)]))"
| "arena_step (sa, live) (FreeTo ptr) =
     (stack_free_to sa ptr,
      filter (\<lambda>(p, n). p - sa_memory sa < ptr - sa_memory sa) live)"
| "arena_step (sa, live) Reset = (stack_reset sa, [])"

definition arena_run :: "stack_allocator_t \<Rightarrow> arena_op list \<Rightarrow> stack_allocator_t \<times> handle list" where
  "arena_run sa ops = foldl arena_step (sa, []) ops"

text \<open>Two handles overlap when some address lies in both regions.\<close>

definition handles_overlap :: "handle \<Rightarrow> handle \<Rightarrow> bool" where
  "handles_overlap a b \<longleftrightarrow> region (fst a) (snd a) \<inter> region (fst b) (snd b) \<noteq> {}"

text \<open>C6.  The claim asks that live handles never overlap.  After \<open>alloc(10)\<close>,
  \<open>alloc(2^64 - 5)\<close> and \<open>alloc(10)\<close> in an arena of 100 bytes, with no \<open>free_to\<close> and
  no \<open>reset\<close>, all three calls have succeeded; the first handle is \<open>[0, 10)\<close> and the
  third is \<open>[5, 15)\<close>, and the byte at offset 5 lies in both.\<close>

theorem arena_live_handles_overlap:
  "snd (arena_run (stack_init 0x1000 100) [Alloc 10, Alloc 0xFFFFFFFFFFFFFFFB, Alloc 10]) =
     [(0x1000, 10), (0x100A, 0xFFFFFFFFFFFFFFFB), (0x1005, 10)] \<and>
   0x1005 \<in> region 0x1000 10 \<and> 0x1005 \<in> region 0x1005 10 \<and>
   handles_overlap (0x1000, 10) (0x1005, 10)"
proof -
  have a: "(0x1005 :: addr) \<in> region 0x1000 10" and b: "(0x1005 :: addr) \<in> region 0x1005 10"
    by (simp_all add: region_def)
  then have "handles_overlap (0x1000, 10) (0x1005, 10)"
    unfolding handles_overlap_def by auto
  moreover have "snd (arena_run (stack_init 0x1000 100) [Alloc 10, Alloc 0xFFFFFFFFFFFFFFFB, Alloc 10]) =
     [(0x1000, 10), (0x100A, 0xFFFFFFFFFFFFFFFB), (0x1005, 10)]"
    by (simp add: arena_run_def stack_alloc_def stack_init_def NULL_def)
  ultimately show ?thesis using a b by simp
qed

section \<open>ArenaAllocator: live handles without wrap-around\<close>

text \<open>The trust contract of the arena, and the requests for which the sum in
  \<open>stack_alloc\<close> does not wrap: \<open>free_to\<close> is given the pointer of a live handle, and
  \<open>alloc\<close> is asked for a size \<open>n\<close> with \<open>top + n < 2^64\<close>.\<close>

fun arena_op_ok :: "stack_allocator_t \<times> handle list \<Rightarrow> arena_op \<Rightarrow> bool" where
  "arena_op_ok (sa, live) (Alloc n) \<longleftrightarrow> unat (sa_top sa) + unat n < 2 ^ 64"
| "arena_op_ok (sa, live) (FreeTo ptr) \<longleftrightarrow> ptr \<in> fst ` set live"
| "arena_op_ok (sa, live) Reset \<longleftrightarrow> True"

fun arena_ops_ok :: "stack_allocator_t \<times> handle list \<Rightarrow> arena_op list \<Rightarrow> bool" where
  "arena_ops_ok s [] \<longleftrightarrow> True"
| "arena_ops_ok s (x # xs) \<longleftrightarrow> arena_op_ok s x \<and> arena_ops_ok (arena_step s x) xs"

text \<open>The live handles lie one behind the other below \<open>top\<close>.\<close>

definition handle_end :: "addr \<Rightarrow> handle \<Rightarrow> nat" where
  "handle_end m a = unat (fst a - m) + unat (snd a)"

definition arena_inv :: "stack_allocator_t \<times> handle list \<Rightarrow> bool" where
  "arena_inv s \<longleftrightarrow>
     (\<forall>a \<in> set (snd s). handle_end (sa_memory (fst s)) a \<le> unat (sa_top (fst s))) \<and>
     sorted_wrt (\<lambda>a b. handle_end (sa_memory (fst s)) a \<le> unat (fst b - sa_memory (fst s))) (snd s)"

lemma arena_step_memory: "sa_memory (fst (arena_step s x)) = sa_memory (fst s)"
  by (cases s; cases x)
     (auto simp: stack_alloc_def stack_free_to_def stack_reset_def Let_def split: prod.splits)

lemma arena_inv_step:
  assumes inv: "arena_inv s" and ok: "arena_op_ok s x"
  shows "arena_inv (arena_step s x)"
proof (cases s)
  case (Pair sa live)
  let ?m = "sa_memory sa"
  have bound: "\<forall>a \<in> set live. handle_end ?m a \<le> unat (sa_top sa)"
    and sorted: "sorted_wrt (\<lambda>a b. handle_end ?m a \<le> unat (fst b - ?m)) live"
    using inv Pair by (simp_all add: arena_inv_def)
  show ?thesis
  proof (cases x)
    case Reset
    then show ?thesis using Pair by (simp add: arena_inv_def stack_reset_def)
  next
    case (Alloc n)
    have nw: "unat (sa_top sa) + unat n < 2 ^ 64" using ok Pair Alloc by simp
    then have sum: "unat (sa_top sa + n) = unat (sa_top sa) + unat n" by (rule unat_add_no_wrap)
    show ?thesis
    proof (cases "sa_size sa < sa_top sa + n \<or> sa_memory sa + sa_top sa = NULL")
      case True
      then show ?thesis
        using Pair Alloc inv sum
        by (auto simp: arena_inv_def stack_alloc_def Let_def handle_end_def)
    next
      case False
      then have st: "arena_step s x =
          (sa\<lparr>sa_top := sa_top sa + n\<rparr>, live @ [(?m + sa_top sa, n)])"
        using Pair Alloc by (simp add: stack_alloc_def Let_def)
      have e: "handle_end ?m (?m + sa_top sa, n) = unat (sa_top sa) + unat n"
        by (simp add: handle_end_def)
      show ?thesis
        unfolding st arena_inv_def
        using bound sorted sum e by (auto simp: sorted_wrt_append)
    qed
  next
    case (FreeTo ptr)
    then obtain k where k: "k \<in> set live" "fst k = ptr" using ok Pair by auto
    let ?live' = "filter (\<lambda>(p, n). p - ?m < ptr - ?m) live"
    have st: "arena_step s x = (sa\<lparr>sa_top := ptr - ?m\<rparr>, ?live')"
      using Pair FreeTo by (simp add: stack_free_to_def)
    have "handle_end ?m a \<le> unat (ptr - ?m)" if a: "a \<in> set ?live'" for a
    proof -
      have al: "a \<in> set live" and lt: "unat (fst a - ?m) < unat (fst k - ?m)"
        using a k(2) by (auto simp: word_less_nat_alt)
      obtain i where i: "i < length live" "live ! i = a" using al by (auto simp: in_set_conv_nth)
      obtain j where j: "j < length live" "live ! j = k" using k(1) by (auto simp: in_set_conv_nth)
      consider "i < j" | "i = j" | "j < i" by (rule linorder_cases)
      then show ?thesis
      proof cases
        case 1
        then show ?thesis
          using sorted_wrt_nth_less [OF sorted 1 j(1)] i j k(2) by simp
      next
        case 2
        then show ?thesis using i j lt by simp
      next
        case 3
        then have "handle_end ?m k \<le> unat (fst a - ?m)"
          using sorted_wrt_nth_less [OF sorted 3 i(1)] i j by simp
        then show ?thesis using lt by (simp add: handle_end_def)
      qed
    qed
    moreover have "sorted_wrt (\<lambda>a b. handle_end ?m a \<le> unat (fst b - ?m)) ?live'"
      using sorted by (rule sorted_wrt_filter)
    ultimately show ?thesis unfolding st arena_inv_def by simp
  qed
qed

lemma arena_inv_run:
  "arena_inv s \<Longrightarrow> arena_ops_ok s xs \<Longrightarrow> arena_inv (foldl arena_step s xs)"
  by (induction xs arbitrary: s) (simp_all add: arena_inv_step)

lemma arena_memory_run: "sa_memory (fst (foldl arena_step s xs)) = sa_memory (fst s)"
  by (induction xs arbitrary: s) (simp_all add: arena_step_memory)

text \<open>When the trust contract is kept and no sum wraps, two live handles share no byte.\<close>

lemma arena_live_disjoint:
  assumes ok: "arena_ops_ok (stack_init memory sz, []) xs"
    and run: "arena_run (stack_init memory sz) xs = (sa, live)"
    and ij: "i < j" "j < length live"
  shows "\<not> handles_overlap (live ! i) (live ! j)"
proof
  assume ov: "handles_overlap (live ! i) (live ! j)"
  have "arena_inv (stack_init memory sz, [])" by (simp add: arena_inv_def)
  then have inv: "arena_inv (sa, live)"
    using arena_inv_run [OF _ ok] run by (simp add: arena_run_def)
  have m: "sa_memory sa = memory"
    using arena_memory_run [of "(stack_init memory sz, [])" xs] run
    by (simp add: arena_run_def stack_init_def)
  let ?a = "live ! i" and ?b = "live ! j"
  have "sorted_wrt (\<lambda>a b. handle_end memory a \<le> unat (fst b - memory)) live"
    using inv m by (simp add: arena_inv_def)
  then have ord: "handle_end memory ?a \<le> unat (fst ?b - memory)"
    using ij by (rule sorted_wrt_nth_less)
  have bnd: "handle_end memory ?b \<le> unat (sa_top sa)"
    using inv ij m by (simp add: arena_inv_def)
  from ov obtain x where x: "x - fst ?a < snd ?a" "x - fst ?b < snd ?b"
    by (auto simp: handles_overlap_def region_def)
  have top: "unat (sa_top sa) < 2 ^ 64" by (rule unat_lt_2p64)
  have xa: "unat (x - fst ?a) < unat (snd ?a)" and xb: "unat (x - fst ?b) < unat (snd ?b)"
    using x by (simp_all add: word_less_nat_alt)
  have "unat ((fst ?a - memory) + (x - fst ?a)) = unat (fst ?a - memory) + unat (x - fst ?a)"
    using xa ord bnd top unat_lt_2p64 [of "fst ?b - memory"]
    by (intro unat_add_no_wrap) (simp add: handle_end_def)
  moreover have "unat ((fst ?b - memory) + (x - fst ?b)) = unat (fst ?b - memory) + unat (x - fst ?b)"
    using xb bnd top by (intro unat_add_no_wrap) (simp add: handle_end_def)
  moreover have "(fst ?a - memory) + (x - fst ?a) = (fst ?b - memory) + (x - fst ?b)" by simp
  ultimately have "unat (fst ?a - memory) + unat (x - fst ?a) =
                   unat (fst ?b - memory) + unat (x - fst ?b)" by simp
  then show False using xa ord by (simp add: handle_end_def)
qed

section \<open>PoolAllocator: the free chain\<close>

text \<open>A pointer stored in eight bytes is read back unchanged.\<close>

lemma from_le_le_bytes: "from_le (le_bytes n v) = v mod 256 ^ n"
proof (induction n arbitrary: v)
  case 0
  then show ?case by simp
next
  case (Suc n)
  have "unat (of_nat (v mod 256) :: byte) = v mod 256"
    by (simp add: unat_of_nat)
  then have "from_le (le_bytes (Suc n) v) = v mod 256 + 256 * (v div 256 mod 256 ^ n)"
    using Suc.IH by simp
  also have "\<dots> = v mod (256 * 256 ^ n)"
    by (simp add: mod_mult2_eq)
  finally show ?case by simp
qed

lemma length_le_bytes [simp]: "length (le_bytes n v) = n"
  by (induction n arbitrary: v) auto

lemma read_write_bytes:
  assumes "length bs < 2 ^ 64"
  shows "read_bytes (write_bytes h a bs) a (length bs) = bs"
proof (rule nth_equalityI)
  show "length (read_bytes (write_bytes h a bs) a (length bs)) = length bs"
    by (simp add: read_bytes_def)
next
  fix i assume "i < length (read_bytes (write_bytes h a bs) a (length bs))"
  then have i: "i < length bs" by (simp add: read_bytes_def)
  then have "unat (of_nat i :: addr) = i" using assms by (simp add: unat_of_nat)
  then show "read_bytes (write_bytes h a bs) a (length bs) ! i = bs ! i"
    using i by (simp add: read_bytes_def write_bytes_def)
qed

lemma load_store_ptr: "load_ptr (store_ptr h a p) a = p"
proof -
  have "read_bytes (write_bytes h a (le_bytes 8 (unat p))) a (length (le_bytes 8 (unat p)))
          = le_bytes 8 (unat p)"
    by (rule read_write_bytes) simp
  then have "from_le (read_bytes (store_ptr h a p) a 8) = unat p mod 256 ^ 8"
    by (simp add: store_ptr_def from_le_le_bytes del: le_bytes.simps)
  moreover have "unat p < 256 ^ 8" using unsigned_less [of p] by simp
  ultimately show ?thesis by (simp add: load_ptr_def)
qed

text \<open>C8.  In any state in which \<open>mp_alloc\<close> succeeds and returns block \<open>b\<close>: whatever
  the caller wrote to memory in between, \<open>mp_free\<close> of \<open>b\<close> followed by \<open>mp_alloc\<close>
  returns \<open>b\<close> again, and leaves the pool as the first \<open>mp_alloc\<close> left it.\<close>

theorem pool_alloc_free_alloc:
  assumes "mp_alloc mp h = (b, mp1)" and "b \<noteq> NULL" and "mp_free mp1 h1 b = (mp2, h2)"
  shows "mp_alloc mp2 h2 = (b, mp1)"
proof -
  have mp2: "mp2 = mp1\<lparr>mp_free_list := b\<rparr>" and h2: "h2 = store_ptr h1 b (mp_free_list mp1)"
    using assms(3) by (auto simp: mp_free_def)
  have "load_ptr h2 b = mp_free_list mp1" by (simp add: h2 load_store_ptr)
  then show ?thesis using assms(2) by (simp add: mp_alloc_def mp2)
qed

lemma mp_init_free_list:
  assumes "mp_init memory total_size block_size h = Inr (mp, h', k)"
  shows "mp_free_list mp = memory"
  using assms by (auto simp: mp_init_def Let_def split: if_splits prod.splits)

theorem pool_alloc_free_alloc_witness:
  "\<exists>mp h k b mp1 mp2 h2.
     mp_init 0x1000 200 32 (\<lambda>_. 0) = Inr (mp, h, k) \<and>
     mp_alloc mp h = (b, mp1) \<and> b = 0x1000 \<and> b \<noteq> NULL \<and>
     mp_free mp1 h b = (mp2, h2) \<and> mp_alloc mp2 h2 = (b, mp1)"
proof -
  obtain mp h k where i: "mp_init 0x1000 200 32 (\<lambda>_. 0) = Inr (mp, h, k)"
    by (cases "mp_init_loop 0x1000 32 6 0 (\<lambda>_. 0, 0)") (simp add: mp_init_def Let_def)
  have fl: "mp_free_list mp = 0x1000" using i by (rule mp_init_free_list)
  obtain b mp1 where a: "mp_alloc mp h = (b, mp1)" by (cases "mp_alloc mp h")
  have b: "b = 0x1000" using a fl by (simp add: mp_alloc_def NULL_def)
  then have nn: "b \<noteq> NULL" by (simp add: NULL_def)
  obtain mp2 h2 where f: "mp_free mp1 h b = (mp2, h2)" by (cases "mp_free mp1 h b")
  from pool_alloc_free_alloc [OF a nn f] i a b nn f show ?thesis by blast
qed

section \<open>PoolAllocator: the linking steps of \<open>mp_init\<close>\<close>

lemma mp_init_loop_steps:
  "i \<le> num_blocks - 1 \<Longrightarrow>
     snd (mp_init_loop memory block_size num_blocks i (h, k)) = k + (unat (num_blocks - 1) - unat i)"
proof (induction memory block_size num_blocks i "(h, k)" arbitrary: h k rule: mp_init_loop.induct)
  case (1 memory block_size num_blocks i h k)
  show ?case
  proof (cases "i < num_blocks - 1")
    case True
    then have le: "i + 1 \<le> num_blocks - 1" by unat_arith
    have s: "unat (i + 1) = Suc (unat i)" using True by unat_arith
    have lt: "unat i < unat (num_blocks - 1)" using True by (simp add: word_less_nat_alt)
    show ?thesis
      using "1.hyps" [OF True le] True s lt
      by (subst mp_init_loop.simps) simp
  next
    case False
    then have "i = num_blocks - 1" using "1.prems" by simp
    then show ?thesis by (subst mp_init_loop.simps) simp
  qed
qed

text \<open>With at least one block, \<open>mp_init\<close> writes one link field per block.\<close>

lemma mp_init_steps:
  assumes "block_size \<noteq> 0" and "block_size \<le> total_size"
  shows "\<exists>mp h'. mp_init memory total_size block_size h =
           Inr (mp, h', unat (total_size div block_size))"
proof -
  let ?n = "total_size div block_size"
  have "unat ?n = unat total_size div unat block_size" by (simp add: unat_div)
  moreover have "0 < unat block_size" "unat block_size \<le> unat total_size"
    using assms by (simp_all add: unat_gt_0 word_le_nat_alt)
  ultimately have "0 < unat ?n" by (simp add: div_greater_zero_iff)
  then have n: "?n \<noteq> 0" by (simp add: unat_gt_0)
  have "snd (mp_init_loop memory block_size ?n 0 (h, 0)) = 0 + (unat (?n - 1) - unat (0 :: 64 word))"
    by (rule mp_init_loop_steps) simp
  then have "Suc (snd (mp_init_loop memory block_size ?n 0 (h, 0))) = unat ?n"
    using n by (simp add: unat_minus_one unat_gt_0)
  then show ?thesis
    using assms(1)
    by (cases "mp_init_loop memory block_size ?n 0 (h, 0)") (simp add: mp_init_def Let_def)
qed

text \<open>C9.  The claim gives \<open>mp_init\<close> exactly \<open>num_blocks = capacity / block_size\<close>
  linking steps on every input.  For a region of 16 bytes and blocks of 32 bytes
  \<open>num_blocks\<close> is \<open>0\<close>, the loop bound \<open>num_blocks - 1\<close> wraps to \<open>2^64 - 1\<close>, and
  \<open>mp_init\<close> writes \<open>2^64\<close> link fields; with a block size of zero the division traps,
  and so does the remainder by the table size in \<open>ht_put\<close> for a table of no buckets.\<close>

theorem mp_init_no_block_steps:
  "(16 :: 64 word) div 32 = 0 \<and>
   (\<exists>mp h'. mp_init 0x1000 16 32 (\<lambda>_. 0) = Inr (mp, h', 18446744073709551616)) \<and>
   mp_init 0x1000 200 0 (\<lambda>_. 0) = Inl DivisionByZero \<and>
   ht_put (fst (ht_init 0x1000 0 16 4 (\<lambda>_. 0))) (\<lambda>_. 0) [116] [25, 0, 0, 0] = Inl DivisionByZero"
proof -
  have "snd (mp_init_loop 0x1000 32 0 0 (\<lambda>_. 0, 0)) = 0 + (unat (0 - 1 :: 64 word) - unat (0 :: 64 word))"
    by (rule mp_init_loop_steps) simp
  moreover have "unat (- 1 :: 64 word) = 18446744073709551615"
    by (simp add: unsigned_minus_1_eq_mask mask_eq_exp_minus_1)
  ultimately have "Suc (snd (mp_init_loop 0x1000 32 0 0 (\<lambda>_. 0, 0))) = 18446744073709551616"
    by simp
  then have "\<exists>mp h'. mp_init 0x1000 16 32 (\<lambda>_. 0) = Inr (mp, h', 18446744073709551616)"
    by (cases "mp_init_loop 0x1000 32 0 0 (\<lambda>_. 0, 0)") (simp add: mp_init_def Let_def)
  then show ?thesis
    by (simp add: mp_init_def ht_put_def ht_init_def Let_def)
qed

section \<open>FixedMap: buckets and probing\<close>

text \<open>A table struct is well formed when it has a bucket and a key field, the bucket
  size is the sum \<open>max_key_length + value_size + 1\<close> without wrap-around, and the
  \<open>table_size\<close> buckets fit into the address space (so that the byte count
  \<open>table_size * bucket_size\<close> that \<open>ht_init\<close> clears does not wrap).\<close>

definition ht_wf :: "fixed_hash_table_t \<Rightarrow> bool" where
  "ht_wf ht \<longleftrightarrow>
     ht_table_size ht \<noteq> 0 \<and> ht_max_key_length ht \<noteq> 0 \<and>
     unat (ht_bucket_size ht) = unat (ht_max_key_length ht) + unat (ht_value_size ht) + 1 \<and>
     unat (ht_table_size ht) * unat (ht_bucket_size ht) < 2 ^ 64"

lemma ht_wf_region_bound:
  assumes "ht_wf ht"
  shows "unat (ht_table_size ht) * unat (ht_bucket_size ht) < 2 ^ 64"
  using assms unfolding ht_wf_def by blast

lemma ht_wf_bucket_bound:
  assumes "ht_wf ht"
  shows "unat (ht_max_key_length ht) + unat (ht_value_size ht) + 1 < 2 ^ 64"
  using assms unat_lt_2p64 [of "ht_bucket_size ht"] by (simp add: ht_wf_def)

lemma fill_bucket_key_byte:
  assumes wf: "ht_wf ht" and o: "off < ht_max_key_length ht"
  shows "fill_bucket ht h c key val (bucket_addr ht c + off) =
           (if off < ht_max_key_length ht - 1 \<and> unat off < length (cstr key)
            then cstr key ! unat off else 0)"
proof -
  let ?m = "ht_max_key_length ht" and ?v = "ht_value_size ht"
  have b: "unat ?m + unat ?v + 1 < 2 ^ 64"
    using wf by (rule ht_wf_bucket_bound)
  have o': "unat off < unat ?m" using o by (simp add: word_less_nat_alt)
  have "unat (?m + ?v) = unat ?m + unat ?v" using b by (simp add: unat_add_no_wrap)
  then have 1: "off \<noteq> ?m + ?v" using o' by auto
  have "unat (off - ?m) = 2 ^ 64 + unat off - unat ?m" using o by (rule unat_sub_wrap)
  then have 2: "\<not> off - ?m < ?v" using b o' by (simp add: word_less_nat_alt)
  have 3: "off = ?m - 1 \<or> off < ?m - 1"
  proof -
    have "?m \<noteq> 0" using o by auto
    then have "unat (?m - 1) = unat ?m - 1" by (simp add: unat_minus_one)
    then have "unat off \<le> unat (?m - 1)" using o' by simp
    then show ?thesis by (auto simp: word_less_nat_alt word_unat_eq_iff)
  qed
  show ?thesis
    using 1 2 3 by (auto simp: fill_bucket_def Let_def occupied_flag_def strncpy_def memcpy_def)
qed

lemma fill_bucket_value_byte:
  assumes wf: "ht_wf ht" and o: "off < ht_value_size ht"
  shows "fill_bucket ht h c key val (bucket_addr ht c + ht_max_key_length ht + off) =
           val ! unat off"
proof -
  have "off \<noteq> ht_value_size ht" using o by auto
  then show ?thesis
    using o by (simp add: fill_bucket_def Let_def occupied_flag_def memcpy_def)
qed

lemma fill_bucket_flag: "fill_bucket ht h c key val (occupied_flag ht c) = 1"
  by (simp add: fill_bucket_def Let_def)

text \<open>Filling a bucket writes inside that bucket only.\<close>

lemma fill_bucket_outside:
  assumes wf: "ht_wf ht" and out: "\<not> x - bucket_addr ht c < ht_bucket_size ht"
  shows "fill_bucket ht h c key val x = h x"
proof -
  let ?m = "ht_max_key_length ht" and ?v = "ht_value_size ht" and ?d = "x - bucket_addr ht c"
  have b: "unat ?m + unat ?v + 1 < 2 ^ 64"
    using wf by (rule ht_wf_bucket_bound)
  have B: "unat (ht_bucket_size ht) = unat ?m + unat ?v + 1" using wf by (simp add: ht_wf_def)
  have d: "unat ?m + unat ?v + 1 \<le> unat ?d" using out B by (simp add: word_less_nat_alt)
  have m0: "?m \<noteq> 0" using wf by (simp add: ht_wf_def)
  have m1: "unat (?m - 1) = unat ?m - 1" using m0 by (simp add: unat_minus_one)
  have 1: "\<not> ?d < ?m - 1" using d m1 by (simp add: word_less_nat_alt)
  have 2: "?d \<noteq> ?m - 1" using d m1 by auto
  have "?m \<le> ?d" using d by (simp add: word_le_nat_alt)
  then have "unat (?d - ?m) = unat ?d - unat ?m" by (rule unat_sub_no_wrap)
  then have d3: "\<not> ?d - ?m < ?v" using d by (simp add: word_less_nat_alt)
  have 3: "\<not> x - (bucket_addr ht c + ?m) < ?v" using d3 by (simp add: diff_diff_eq)
  have "unat (?m + ?v) = unat ?m + unat ?v" using b by (simp add: unat_add_no_wrap)
  then have 4: "?d \<noteq> ?m + ?v" using d by auto
  have e2: "x \<noteq> bucket_addr ht c + (?m - 1)" using 2 by auto
  have e4: "x \<noteq> bucket_addr ht c + ?m + ?v" using 4 by (auto simp: add.assoc)
  show ?thesis
    using 1 e2 3 e4 by (simp add: fill_bucket_def Let_def occupied_flag_def strncpy_def memcpy_def)
qed

text \<open>The offset of a byte of a bucket from the start of the table, and the buckets
  of two different indices below \<open>table_size\<close> share no byte.\<close>

lemma bucket_offset_unat:
  assumes wf: "ht_wf ht" and c: "c < ht_table_size ht" and o: "off < ht_bucket_size ht"
  shows "unat (c * ht_bucket_size ht + off) = unat c * unat (ht_bucket_size ht) + unat off"
proof -
  let ?B = "unat (ht_bucket_size ht)" and ?N = "unat (ht_table_size ht)"
  have c': "Suc (unat c) \<le> ?N" using c by (simp add: word_less_nat_alt)
  have o': "unat off < ?B" using o by (simp add: word_less_nat_alt)
  have "Suc (unat c) * ?B \<le> ?N * ?B" using c' by (rule mult_le_mono1)
  moreover have "?N * ?B \<le> 2 ^ 64" using ht_wf_region_bound [OF wf] by simp
  ultimately have le: "unat c * ?B + ?B \<le> 2 ^ 64" by simp
  then have "unat c * ?B < 2 ^ 64" using o' by simp
  then have m: "unat (c * ht_bucket_size ht) = unat c * ?B" by (rule unat_mult_no_wrap)
  have "unat (c * ht_bucket_size ht) + unat off < 2 ^ 64" using m le o' by simp
  then show ?thesis using m by (simp add: unat_add_no_wrap)
qed

lemma bucket_disjoint:
  assumes wf: "ht_wf ht" and c: "c < ht_table_size ht" and c': "c' < ht_table_size ht"
    and ne: "c \<noteq> c'" and x: "x - bucket_addr ht c < ht_bucket_size ht"
  shows "\<not> x - bucket_addr ht c' < ht_bucket_size ht"
proof
  assume x': "x - bucket_addr ht c' < ht_bucket_size ht"
  let ?b = "ht_bucket_size ht"
  let ?o = "x - bucket_addr ht c" and ?o' = "x - bucket_addr ht c'"
  have "c * ?b + ?o = c' * ?b + ?o'" by (simp add: bucket_addr_def algebra_simps)
  then have "unat (c * ?b + ?o) = unat (c' * ?b + ?o')" by (rule arg_cong)
  then have eq: "unat c * unat ?b + unat ?o = unat c' * unat ?b + unat ?o'"
    using bucket_offset_unat [OF wf c x] bucket_offset_unat [OF wf c' x'] by simp
  have lt: "unat ?o < unat ?b" "unat ?o' < unat ?b"
    using x x' by (simp_all add: word_less_nat_alt)
  have "(unat c * unat ?b + unat ?o) div unat ?b = unat c" using lt by simp
  moreover have "(unat c' * unat ?b + unat ?o') div unat ?b = unat c'" using lt by simp
  ultimately have "unat c = unat c'" using eq by simp
  then show False using ne by (simp add: word_unat_eq_iff)
qed

lemma fill_bucket_other:
  assumes wf: "ht_wf ht" and c: "c < ht_table_size ht" and c': "c' < ht_table_size ht"
    and ne: "c \<noteq> c'" and x: "x - bucket_addr ht c' < ht_bucket_size ht"
  shows "fill_bucket ht h c key val x = h x"
  using fill_bucket_outside [OF wf] bucket_disjoint [OF wf c' c _ x] ne by blast

text \<open>\<open>strcmp\<close> returns zero exactly when the bytes at the address are the characters of
  the key followed by a zero byte.\<close>

lemma strcmp_zero_iff:
  "strcmp h a key = 0 \<longleftrightarrow>
     (\<forall>i < length (cstr key). h (a + of_nat i) = cstr key ! i) \<and>
     h (a + of_nat (length (cstr key))) = 0"
proof (induction key arbitrary: a)
  case Nil
  then show ?case by (simp add: cstr_def unsigned_eq_0_iff)
next
  case (Cons c cs)
  show ?case
  proof (cases "c = 0")
    case True
    then show ?thesis by (simp add: cstr_def unsigned_eq_0_iff)
  next
    case False
    have cs: "cstr (c # cs) = c # cstr cs" using False by (simp add: cstr_def)
    have ne: "h a \<noteq> c \<Longrightarrow> uint (h a) - uint c \<noteq> 0"
      by (simp add: word_uint_eq_iff)
    show ?thesis
      using False Cons.IH [of "a + 1"] ne
      by (auto simp: cs All_less_Suc2 add.assoc)
  qed
qed

lemma length_cstr_le: "length (cstr key) \<le> length key"
  by (simp add: cstr_def length_takeWhile_le)

section \<open>FixedMap: the probe loops\<close>

text \<open>The bucket the loops look at in round \<open>i\<close>, and the test on which \<open>ht_put\<close>
  stops there.\<close>

definition probe_index :: "fixed_hash_table_t \<Rightarrow> 64 word \<Rightarrow> 64 word \<Rightarrow> 64 word" where
  "probe_index ht index i = (index + i) mod ht_table_size ht"

definition put_stops :: "fixed_hash_table_t \<Rightarrow> heap \<Rightarrow> byte list \<Rightarrow> 64 word \<Rightarrow> bool" where
  "put_stops ht h key c \<longleftrightarrow>
     h (occupied_flag ht c) = 0 \<or> strcmp h (bucket_addr ht c) key = 0"

lemma word_succ_le:
  fixes i j :: "64 word"
  shows "i < j \<Longrightarrow> i + 1 \<le> j"
  by (rule inc_le)

lemma ht_put_loop_False:
  "ht_put_loop ht h key val index i = Inr (False, h') \<Longrightarrow> h' = h"
proof (induction ht h key val index i rule: ht_put_loop.induct)
  case (1 ht h key val index i)
  show ?case
    using "1.prems" "1.IH"
    by (subst (asm) ht_put_loop.simps) (auto simp: Let_def split: if_splits)
qed

lemma ht_remove_loop_False:
  "ht_remove_loop ht h key index i = (False, h') \<Longrightarrow> h' = h"
proof (induction ht h key index i rule: ht_remove_loop.induct)
  case (1 ht h key index i)
  show ?case
    using "1.prems" "1.IH"
    by (subst (asm) ht_remove_loop.simps) (auto simp: Let_def split: if_splits)
qed

lemma ht_put_loop_stop:
  assumes "i \<le> j" and "j < ht_table_size ht" and "put_stops ht h key (probe_index ht index j)"
    and "unat (ht_value_size ht) \<le> length val"
  shows "\<exists>j'. i \<le> j' \<and> j' \<le> j \<and> put_stops ht h key (probe_index ht index j') \<and>
           (\<forall>k. i \<le> k \<and> k < j' \<longrightarrow> \<not> put_stops ht h key (probe_index ht index k)) \<and>
           ht_put_loop ht h key val index i =
             Inr (True, fill_bucket ht h (probe_index ht index j') key val)"
  using assms(1)
proof (induction "unat j - unat i" arbitrary: i)
  case 0
  then have "i = j" by (simp add: word_le_nat_alt word_unat_eq_iff)
  then show ?case
    using assms(2,3,4)
    by (subst ht_put_loop.simps) (auto simp: put_stops_def probe_index_def Let_def)
next
  case (Suc n)
  have ilt: "i < ht_table_size ht" using Suc.prems assms(2) by simp
  show ?case
  proof (cases "put_stops ht h key (probe_index ht index i)")
    case True
    then show ?thesis
      using ilt assms(4) Suc.prems
      by (subst ht_put_loop.simps) (auto simp: put_stops_def probe_index_def Let_def)
  next
    case False
    then have "i \<noteq> j" using assms(3) by auto
    then have lt: "i < j" using Suc.prems by simp
    then have le: "i + 1 \<le> j" by (rule word_succ_le)
    have "unat (i + 1) = Suc (unat i)" using lt by (rule unat_succ)
    then have "n = unat j - unat (i + 1)" using Suc.hyps(2) by simp
    from Suc.hyps(1) [OF this le]
    obtain j' where j': "i + 1 \<le> j'" "j' \<le> j" "put_stops ht h key (probe_index ht index j')"
      "\<forall>k. i + 1 \<le> k \<and> k < j' \<longrightarrow> \<not> put_stops ht h key (probe_index ht index k)"
      "ht_put_loop ht h key val index (i + 1) =
         Inr (True, fill_bucket ht h (probe_index ht index j') key val)" by blast
    have "i \<le> i + 1" using lt by (simp add: word_le_nat_alt unat_succ [OF lt])
    then have ij': "i \<le> j'" using j'(1) by simp
    have all: "\<forall>k. i \<le> k \<and> k < j' \<longrightarrow> \<not> put_stops ht h key (probe_index ht index k)"
    proof (intro allI impI)
      fix k assume k: "i \<le> k \<and> k < j'"
      show "\<not> put_stops ht h key (probe_index ht index k)"
      proof (cases "k = i")
        case True
        then show ?thesis using False by simp
      next
        case False
        then have "i < k" using k by auto
        then have "i + 1 \<le> k" by (rule word_succ_le)
        then show ?thesis using j'(4) k by blast
      qed
    qed
    have "ht_put_loop ht h key val index i = ht_put_loop ht h key val index (i + 1)"
      using False ilt
      by (subst ht_put_loop.simps) (simp add: put_stops_def probe_index_def Let_def)
    then show ?thesis using j' ij' all by auto
  qed
qed

lemma ht_get_loop_found:
  assumes "i \<le> j" and "j < ht_table_size ht"
    and "\<forall>k. i \<le> k \<and> k < j \<longrightarrow>
           h (occupied_flag ht (probe_index ht index k)) \<noteq> 0 \<and>
           strcmp h (bucket_addr ht (probe_index ht index k)) key \<noteq> 0"
    and "h (occupied_flag ht (probe_index ht index j)) \<noteq> 0"
    and "strcmp h (bucket_addr ht (probe_index ht index j)) key = 0"
  shows "ht_get_loop ht h key index i =
           Some (read_bytes h (bucket_addr ht (probe_index ht index j) + ht_max_key_length ht)
                   (unat (ht_value_size ht)))"
  using assms(1,3)
proof (induction "unat j - unat i" arbitrary: i)
  case 0
  then have "i = j" by (simp add: word_le_nat_alt word_unat_eq_iff)
  then show ?case
    using assms(2,4,5)
    by (subst ht_get_loop.simps) (simp add: probe_index_def Let_def)
next
  case (Suc n)
  have ne: "i \<noteq> j" using Suc.hyps(2) by auto
  then have lt: "i < j" using Suc.prems(1) by simp
  then have le: "i + 1 \<le> j" by (rule word_succ_le)
  have ilt: "i < ht_table_size ht" using lt assms(2) by simp
  have s: "unat (i + 1) = Suc (unat i)" using lt by (rule unat_succ)
  then have n: "n = unat j - unat (i + 1)" using Suc.hyps(2) by simp
  have ii: "i \<le> i + 1" using s by (simp add: word_le_nat_alt)
  have here: "h (occupied_flag ht (probe_index ht index i)) \<noteq> 0 \<and>
              strcmp h (bucket_addr ht (probe_index ht index i)) key \<noteq> 0"
    using Suc.prems(2) lt by simp
  have rest: "\<forall>k. i + 1 \<le> k \<and> k < j \<longrightarrow>
           h (occupied_flag ht (probe_index ht index k)) \<noteq> 0 \<and>
           strcmp h (bucket_addr ht (probe_index ht index k)) key \<noteq> 0"
    using Suc.prems(2) ii by (meson order_trans)
  have "ht_get_loop ht h key index i = ht_get_loop ht h key index (i + 1)"
    using here ilt
    by (subst ht_get_loop.simps) (simp add: probe_index_def Let_def)
  then show ?case using Suc.hyps(1) [OF n le rest] by simp
qed

section \<open>FixedMap: what a filled bucket holds\<close>

lemma unat_of_nat_64: "n < 2 ^ 64 \<Longrightarrow> unat (of_nat n :: 64 word) = n"
  by (simp add: unat_of_nat)

lemma of_nat_less_word:
  fixes w :: "64 word"
  shows "n < unat w \<Longrightarrow> (of_nat n :: 64 word) < w"
  using unat_lt_2p64 [of w] by (simp add: word_less_nat_alt unat_of_nat)

lemma cstr_nonzero: "i < length (cstr key) \<Longrightarrow> cstr key ! i \<noteq> 0"
  using nth_mem [of i "cstr key"] set_takeWhileD [of "cstr key ! i" "\<lambda>c. c \<noteq> 0" key]
  by (simp add: cstr_def)

text \<open>After \<open>ht_put\<close> has filled a bucket with a key that fits, the key field holds the
  characters of the key and a zero byte behind them.\<close>

lemma fill_bucket_key_chars:
  assumes wf: "ht_wf ht" and len: "length (cstr k1) < unat (ht_max_key_length ht)"
  shows "i < length (cstr k1) \<Longrightarrow>
           fill_bucket ht h c k1 val (bucket_addr ht c + of_nat i) = cstr k1 ! i"
    and "fill_bucket ht h c k1 val (bucket_addr ht c + of_nat (length (cstr k1))) = 0"
proof -
  let ?m = "ht_max_key_length ht"
  have m0: "?m \<noteq> 0" using wf by (simp add: ht_wf_def)
  have m1: "unat (?m - 1) = unat ?m - 1" using m0 by (simp add: unat_minus_one)
  have M: "unat ?m < 2 ^ 64" by (rule unat_lt_2p64)
  {
    assume i: "i < length (cstr k1)"
    then have iM: "i < unat ?m - 1" using len by simp
    then have u: "unat (of_nat i :: 64 word) = i" using M by (simp add: unat_of_nat_64)
    have "(of_nat i :: 64 word) < ?m" using iM by (simp add: of_nat_less_word)
    moreover have "(of_nat i :: 64 word) < ?m - 1" using iM m1 by (simp add: of_nat_less_word)
    ultimately show "fill_bucket ht h c k1 val (bucket_addr ht c + of_nat i) = cstr k1 ! i"
      using i u by (simp add: fill_bucket_key_byte [OF wf])
  }
  have u: "unat (of_nat (length (cstr k1)) :: 64 word) = length (cstr k1)"
    using len M by (simp add: unat_of_nat_64)
  have "(of_nat (length (cstr k1)) :: 64 word) < ?m" using len by (simp add: of_nat_less_word)
  then show "fill_bucket ht h c k1 val (bucket_addr ht c + of_nat (length (cstr k1))) = 0"
    using u by (simp add: fill_bucket_key_byte [OF wf])
qed

lemma strcmp_fill_bucket_same:
  assumes wf: "ht_wf ht" and len: "length (cstr k1) < unat (ht_max_key_length ht)"
  shows "(strcmp (fill_bucket ht h c k1 val) (bucket_addr ht c) k2 = 0) = (cstr k2 = cstr k1)"
proof
  assume "cstr k2 = cstr k1"
  then show "strcmp (fill_bucket ht h c k1 val) (bucket_addr ht c) k2 = 0"
    using fill_bucket_key_chars [OF wf len] by (simp add: strcmp_zero_iff)
next
  let ?f = "fill_bucket ht h c k1 val" and ?a = "bucket_addr ht c"
  let ?n1 = "length (cstr k1)" and ?n2 = "length (cstr k2)"
  assume "strcmp ?f ?a k2 = 0"
  then have all: "\<forall>i < ?n2. ?f (?a + of_nat i) = cstr k2 ! i" and z: "?f (?a + of_nat ?n2) = 0"
    by (simp_all add: strcmp_zero_iff)
  have "\<not> ?n2 < ?n1"
  proof
    assume "?n2 < ?n1"
    then have "?f (?a + of_nat ?n2) = cstr k1 ! ?n2" "cstr k1 ! ?n2 \<noteq> 0"
      using fill_bucket_key_chars(1) [OF wf len] cstr_nonzero by auto
    then show False using z by simp
  qed
  moreover have "\<not> ?n1 < ?n2"
  proof
    assume l: "?n1 < ?n2"
    then have "?f (?a + of_nat ?n1) = cstr k2 ! ?n1" using all by simp
    moreover have "cstr k2 ! ?n1 \<noteq> 0" using l by (rule cstr_nonzero)
    ultimately show False using fill_bucket_key_chars(2) [OF wf len] by simp
  qed
  ultimately have n: "?n2 = ?n1" by simp
  show "cstr k2 = cstr k1"
  proof (rule nth_equalityI)
    show "?n2 = ?n1" by (rule n)
  next
    fix i assume "i < ?n2"
    then show "cstr k2 ! i = cstr k1 ! i"
      using all n fill_bucket_key_chars(1) [OF wf len, of i] by auto
  qed
qed

lemma fill_bucket_value:
  assumes wf: "ht_wf ht" and val: "length val = unat (ht_value_size ht)"
  shows "read_bytes (fill_bucket ht h c key val) (bucket_addr ht c + ht_max_key_length ht)
           (unat (ht_value_size ht)) = val"
proof (rule nth_equalityI)
  show "length (read_bytes (fill_bucket ht h c key val) (bucket_addr ht c + ht_max_key_length ht)
           (unat (ht_value_size ht))) = length val"
    using val by (simp add: read_bytes_def)
next
  fix i
  assume "i < length (read_bytes (fill_bucket ht h c key val)
                (bucket_addr ht c + ht_max_key_length ht) (unat (ht_value_size ht)))"
  then have i: "i < unat (ht_value_size ht)" by (simp add: read_bytes_def)
  then have "(of_nat i :: 64 word) < ht_value_size ht" by (rule of_nat_less_word)
  moreover have "unat (of_nat i :: 64 word) = i"
    using i unat_lt_2p64 [of "ht_value_size ht"] by (simp add: unat_of_nat_64)
  ultimately show "read_bytes (fill_bucket ht h c key val)
          (bucket_addr ht c + ht_max_key_length ht) (unat (ht_value_size ht)) ! i = val ! i"
    using i by (simp add: read_bytes_def fill_bucket_value_byte [OF wf])
qed

text \<open>Filling one bucket changes neither the flag nor the outcome of \<open>strcmp\<close> in
  another bucket, when the key compared fits the key field.\<close>

lemma flag_in_bucket:
  assumes wf: "ht_wf ht"
  shows "occupied_flag ht c - bucket_addr ht c < ht_bucket_size ht"
proof -
  let ?m = "ht_max_key_length ht" and ?v = "ht_value_size ht"
  have "unat (?m + ?v) = unat ?m + unat ?v"
    using ht_wf_bucket_bound [OF wf] by (simp add: unat_add_no_wrap)
  moreover have "unat (ht_bucket_size ht) = unat ?m + unat ?v + 1" using wf by (simp add: ht_wf_def)
  ultimately have "?m + ?v < ht_bucket_size ht" by (simp add: word_less_nat_alt)
  moreover have "occupied_flag ht c - bucket_addr ht c = ?m + ?v"
    by (simp add: occupied_flag_def add.assoc)
  ultimately show ?thesis by simp
qed

lemma key_byte_in_bucket:
  assumes wf: "ht_wf ht" and i: "i < unat (ht_max_key_length ht)"
  shows "(bucket_addr ht c + of_nat i) - bucket_addr ht c < ht_bucket_size ht"
proof -
  have "i < unat (ht_bucket_size ht)" using wf i by (simp add: ht_wf_def)
  then show ?thesis by (simp add: of_nat_less_word)
qed

lemma flag_fill_bucket_other:
  assumes "ht_wf ht" "c < ht_table_size ht" "c' < ht_table_size ht" "c \<noteq> c'"
  shows "fill_bucket ht h c key val (occupied_flag ht c') = h (occupied_flag ht c')"
  using assms by (simp add: fill_bucket_other flag_in_bucket)

lemma strcmp_fill_bucket_other:
  assumes wf: "ht_wf ht" and c: "c < ht_table_size ht" and c': "c' < ht_table_size ht"
    and ne: "c \<noteq> c'" and len: "length (cstr k2) < unat (ht_max_key_length ht)"
  shows "(strcmp (fill_bucket ht h c k1 val) (bucket_addr ht c') k2 = 0) =
         (strcmp h (bucket_addr ht c') k2 = 0)"
proof -
  have "fill_bucket ht h c k1 val (bucket_addr ht c' + of_nat i) = h (bucket_addr ht c' + of_nat i)"
    if "i \<le> length (cstr k2)" for i
  proof -
    have "i < unat (ht_max_key_length ht)" using that len by simp
    then show ?thesis
      using fill_bucket_other [OF wf c c' ne] key_byte_in_bucket [OF wf] by blast
  qed
  then show ?thesis by (simp add: strcmp_zero_iff)
qed

section \<open>FixedMap: the probe sequence\<close>

lemma ht_wf_table_bound:
  assumes wf: "ht_wf ht"
  shows "2 * unat (ht_table_size ht) \<le> 2 ^ 64"
proof -
  let ?N = "unat (ht_table_size ht)" and ?B = "unat (ht_bucket_size ht)"
  have "0 < unat (ht_max_key_length ht)" using wf by (simp add: ht_wf_def unat_gt_0)
  then have "2 \<le> ?B" using wf by (simp add: ht_wf_def)
  then have "?N * 2 \<le> ?N * ?B" by (rule mult_le_mono2)
  moreover have "?N * ?B \<le> 2 ^ 64" using ht_wf_region_bound [OF wf] by simp
  ultimately show ?thesis by linarith
qed

lemma probe_index_unat:
  assumes wf: "ht_wf ht" and ix: "index < ht_table_size ht" and i: "i < ht_table_size ht"
  shows "unat (probe_index ht index i) = (unat index + unat i) mod unat (ht_table_size ht)"
proof -
  have "unat index + unat i < 2 * unat (ht_table_size ht)"
    using ix i by (simp add: word_less_nat_alt)
  then have "unat index + unat i < 2 ^ 64" using ht_wf_table_bound [OF wf] by simp
  then have "unat (index + i) = unat index + unat i" by (rule unat_add_no_wrap)
  then show ?thesis by (simp add: probe_index_def unat_mod)
qed

lemma probe_index_less:
  assumes "ht_wf ht"
  shows "probe_index ht index i < ht_table_size ht"
proof -
  have "0 < unat (ht_table_size ht)" using assms by (simp add: ht_wf_def unat_gt_0)
  then show ?thesis by (simp add: probe_index_def word_less_nat_alt unat_mod)
qed

lemma probe_index_inj:
  assumes wf: "ht_wf ht" and ix: "index < ht_table_size ht"
    and i: "i < ht_table_size ht" and j: "j < ht_table_size ht" and ne: "i \<noteq> j"
  shows "probe_index ht index i \<noteq> probe_index ht index j"
proof
  assume "probe_index ht index i = probe_index ht index j"
  then have eq: "(unat index + unat i) mod unat (ht_table_size ht) =
             (unat index + unat j) mod unat (ht_table_size ht)"
    using probe_index_unat [OF wf ix i] probe_index_unat [OF wf ix j] by simp
  have "unat i \<noteq> unat j" using ne by (simp add: word_unat_eq_iff)
  then consider "unat i < unat j" | "unat j < unat i" by linarith
  then show False
  proof cases
    case 1
    then show False
      using mod_shift_neq [of "unat i" "unat j" "unat (ht_table_size ht)" "unat index"] j eq
      by (simp add: word_less_nat_alt)
  next
    case 2
    then show False
      using mod_shift_neq [of "unat j" "unat i" "unat (ht_table_size ht)" "unat index"] i eq
      by (simp add: word_less_nat_alt)
  qed
qed

lemma probe_index_surj:
  assumes wf: "ht_wf ht" and ix: "index < ht_table_size ht" and c: "c < ht_table_size ht"
  shows "\<exists>i. i < ht_table_size ht \<and> probe_index ht index i = c"
proof -
  let ?N = "unat (ht_table_size ht)"
  define n where "n = (unat c + ?N - unat index) mod ?N"
  have N0: "0 < ?N" using c by (simp add: word_less_nat_alt)
  have ixN: "unat index < ?N" and cN: "unat c < ?N" using ix c by (simp_all add: word_less_nat_alt)
  have nN: "n < ?N" using N0 by (simp add: n_def)
  have N64: "?N < 2 ^ 64" by (rule unat_lt_2p64)
  let ?i = "of_nat n :: 64 word"
  have ui: "unat ?i = n" using nN N64 by (simp add: unat_of_nat_64)
  have i: "?i < ht_table_size ht" using nN by (rule of_nat_less_word)
  have "(unat index + n) mod ?N = (unat index + (unat c + ?N - unat index)) mod ?N"
    by (simp add: n_def mod_add_right_eq)
  also have "\<dots> = (unat c + ?N) mod ?N" using ixN by simp
  also have "\<dots> = unat c" using cN by simp
  finally have "unat (probe_index ht index ?i) = unat c"
    using probe_index_unat [OF wf ix i] ui by simp
  then have "probe_index ht index ?i = c" by (simp add: word_unat_eq_iff)
  with i show ?thesis by blast
qed

section \<open>FixedMap: \<open>put\<close> then \<open>get\<close>\<close>

text \<open>The number of occupied buckets of the table.\<close>

definition ht_occupancy :: "fixed_hash_table_t \<Rightarrow> heap \<Rightarrow> nat" where
  "ht_occupancy ht h =
     length (filter (\<lambda>i. h (occupied_flag ht (of_nat i)) \<noteq> 0) [0..<unat (ht_table_size ht)])"

lemma free_bucket_exists:
  assumes "ht_occupancy ht h < unat (ht_table_size ht)"
  shows "\<exists>c. c < ht_table_size ht \<and> h (occupied_flag ht c) = 0"
proof -
  let ?P = "\<lambda>i. h (occupied_flag ht (of_nat i)) \<noteq> 0" and ?xs = "[0..<unat (ht_table_size ht)]"
  have "length (filter ?P ?xs) < length ?xs" using assms by (simp add: ht_occupancy_def)
  then have "filter ?P ?xs \<noteq> ?xs" by auto
  then obtain i where "i \<in> set ?xs" "\<not> ?P i" by (auto simp: filter_id_conv)
  then have "i < unat (ht_table_size ht)" "h (occupied_flag ht (of_nat i)) = 0" by auto
  then show ?thesis using of_nat_less_word by blast
qed

lemma ht_put_succeeds:
  assumes wf: "ht_wf ht" and val: "unat (ht_value_size ht) \<le> length val"
    and free: "c < ht_table_size ht" "h (occupied_flag ht c) = 0"
  shows "\<exists>j. j < ht_table_size ht \<and>
           put_stops ht h key (probe_index ht (hash_function key mod ht_table_size ht) j) \<and>
           (\<forall>k. k < j \<longrightarrow>
              \<not> put_stops ht h key (probe_index ht (hash_function key mod ht_table_size ht) k)) \<and>
           ht_put ht h key val =
             Inr (True, fill_bucket ht h
                          (probe_index ht (hash_function key mod ht_table_size ht) j) key val)"
proof -
  let ?ix = "hash_function key mod ht_table_size ht"
  have ts: "ht_table_size ht \<noteq> 0" using wf by (simp add: ht_wf_def)
  then have ix: "?ix < ht_table_size ht"
    by (simp add: word_less_nat_alt unat_mod unat_gt_0)
  obtain j where j: "j < ht_table_size ht" "probe_index ht ?ix j = c"
    using probe_index_surj [OF wf ix free(1)] by blast
  have "put_stops ht h key (probe_index ht ?ix j)" using j(2) free(2) by (simp add: put_stops_def)
  from ht_put_loop_stop [OF _ j(1) this val, of 0]
  obtain j' where j': "j' \<le> j" "put_stops ht h key (probe_index ht ?ix j')"
    "\<forall>k. k < j' \<longrightarrow> \<not> put_stops ht h key (probe_index ht ?ix k)"
    "ht_put_loop ht h key val ?ix 0 = Inr (True, fill_bucket ht h (probe_index ht ?ix j') key val)"
    by auto
  have "j' < ht_table_size ht" using j'(1) j(1) by simp
  then show ?thesis using j' ts by (auto simp: ht_put_def)
qed

text \<open>The round trip for keys that fit the key field with their terminator.  In a
  well-formed table with an unoccupied bucket, for a key of fewer
  than \<open>max_key_length\<close> characters and a value of exactly \<open>value_size\<close> bytes:
  \<open>ht_put\<close> returns true and the \<open>ht_get\<close> that follows returns true with the bytes
  of the value.\<close>

theorem ht_put_get_roundtrip:
  assumes wf: "ht_wf ht"
    and key: "length (cstr key) < unat (ht_max_key_length ht)"
    and val: "length val = unat (ht_value_size ht)"
    and occ: "ht_occupancy ht h < unat (ht_table_size ht)"
  shows "\<exists>h'. ht_put ht h key val = Inr (True, h') \<and> ht_get ht h' key = Inr (Some val)"
proof -
  let ?ix = "hash_function key mod ht_table_size ht"
  have ts: "ht_table_size ht \<noteq> 0" using wf by (simp add: ht_wf_def)
  then have ix: "?ix < ht_table_size ht"
    by (simp add: word_less_nat_alt unat_mod unat_gt_0)
  obtain c where c: "c < ht_table_size ht" "h (occupied_flag ht c) = 0"
    using free_bucket_exists [OF occ] by blast
  have vl: "unat (ht_value_size ht) \<le> length val" using val by simp
  from ht_put_succeeds [where h = h and c = c and key = key, OF wf vl c(1) c(2)]
  obtain j where j: "j < ht_table_size ht"
    "\<forall>k. k < j \<longrightarrow> \<not> put_stops ht h key (probe_index ht ?ix k)"
    "ht_put ht h key val = Inr (True, fill_bucket ht h (probe_index ht ?ix j) key val)"
    by blast
  let ?c = "probe_index ht ?ix j"
  let ?h' = "fill_bucket ht h ?c key val"
  have cj: "?c < ht_table_size ht" using wf by (rule probe_index_less)
  have before: "\<forall>k. 0 \<le> k \<and> k < j \<longrightarrow>
           ?h' (occupied_flag ht (probe_index ht ?ix k)) \<noteq> 0 \<and>
           strcmp ?h' (bucket_addr ht (probe_index ht ?ix k)) key \<noteq> 0"
  proof (intro allI impI)
    fix k assume k: "0 \<le> k \<and> k < j"
    let ?ck = "probe_index ht ?ix k"
    have kt: "k < ht_table_size ht" using k j(1) by simp
    have ne: "?c \<noteq> ?ck" using probe_index_inj [OF wf ix j(1) kt] k by auto
    have ck: "?ck < ht_table_size ht" using wf by (rule probe_index_less)
    have "\<not> put_stops ht h key ?ck" using j(2) k by simp
    then show "?h' (occupied_flag ht ?ck) \<noteq> 0 \<and> strcmp ?h' (bucket_addr ht ?ck) key \<noteq> 0"
      using flag_fill_bucket_other [OF wf cj ck ne] strcmp_fill_bucket_other [OF wf cj ck ne key]
      by (simp add: put_stops_def)
  qed
  have flag: "?h' (occupied_flag ht ?c) \<noteq> 0" by (simp add: fill_bucket_flag)
  have same: "strcmp ?h' (bucket_addr ht ?c) key = 0"
    using strcmp_fill_bucket_same [OF wf key] by simp
  have "ht_get_loop ht ?h' key ?ix 0 =
          Some (read_bytes ?h' (bucket_addr ht ?c + ht_max_key_length ht) (unat (ht_value_size ht)))"
    using ht_get_loop_found [OF _ j(1) before flag same] by simp
  then have "ht_get ht ?h' key = Inr (Some val)"
    using ts fill_bucket_value [OF wf val] by (simp add: ht_get_def)
  with j(3) show ?thesis by blast
qed

section \<open>FixedMap: the stored key is truncated\<close>

definition stored_key_field :: "nat \<Rightarrow> byte list \<Rightarrow> byte list" where
  "stored_key_field m key =
     take (m - 1) (cstr key) @ replicate (m - length (take (m - 1) (cstr key))) 0"

lemma fill_bucket_key_field:
  assumes wf: "ht_wf ht"
  shows "read_bytes (fill_bucket ht h c key val) (bucket_addr ht c) (unat (ht_max_key_length ht)) =
           stored_key_field (unat (ht_max_key_length ht)) key"
proof (rule nth_equalityI)
  let ?M = "unat (ht_max_key_length ht)"
  show "length (read_bytes (fill_bucket ht h c key val) (bucket_addr ht c) ?M) =
          length (stored_key_field ?M key)"
    by (simp add: read_bytes_def stored_key_field_def)
  fix i
  assume "i < length (read_bytes (fill_bucket ht h c key val) (bucket_addr ht c) ?M)"
  then have i: "i < ?M" by (simp add: read_bytes_def)
  have m0: "ht_max_key_length ht \<noteq> 0" using wf by (simp add: ht_wf_def)
  have m1: "unat (ht_max_key_length ht - 1) = ?M - 1" using m0 by (simp add: unat_minus_one)
  have u: "unat (of_nat i :: 64 word) = i"
    using i unat_lt_2p64 [of "ht_max_key_length ht"] by (simp add: unat_of_nat_64)
  have lt: "(of_nat i :: 64 word) < ht_max_key_length ht" using i by (rule of_nat_less_word)
  have c: "((of_nat i :: 64 word) < ht_max_key_length ht - 1) = (i < ?M - 1)"
    using u m1 by (simp add: word_less_nat_alt)
  show "read_bytes (fill_bucket ht h c key val) (bucket_addr ht c) ?M ! i =
          stored_key_field ?M key ! i"
    using i u c
    by (auto simp: read_bytes_def stored_key_field_def fill_bucket_key_byte [OF wf lt] nth_append)
qed

text \<open>What \<open>ht_put\<close> stores.  In a well-formed table with an unoccupied bucket,
  \<open>ht_put\<close> returns true for a key of any length.  The key field of the bucket it fills holds the first
  \<open>max_key_length - 1\<close> characters of the key (fewer when the key is shorter) followed by
  zero bytes, with a zero at index \<open>max_key_length - 1\<close>; two keys that agree on their
  first \<open>max_key_length - 1\<close> characters leave the same bytes in the key field.\<close>

theorem ht_put_truncates_key:
  assumes wf: "ht_wf ht" and val: "unat (ht_value_size ht) \<le> length val"
    and occ: "ht_occupancy ht h < unat (ht_table_size ht)"
  shows "\<exists>c. c < ht_table_size ht \<and>
           ht_put ht h key val = Inr (True, fill_bucket ht h c key val) \<and>
           read_bytes (fill_bucket ht h c key val) (bucket_addr ht c) (unat (ht_max_key_length ht)) =
             stored_key_field (unat (ht_max_key_length ht)) key \<and>
           length (takeWhile (\<lambda>b. b \<noteq> 0) (stored_key_field (unat (ht_max_key_length ht)) key))
             \<le> unat (ht_max_key_length ht) - 1 \<and>
           fill_bucket ht h c key val (bucket_addr ht c + (ht_max_key_length ht - 1)) = 0 \<and>
           (\<forall>key'. take (unat (ht_max_key_length ht) - 1) (cstr key') =
                      take (unat (ht_max_key_length ht) - 1) (cstr key) \<longrightarrow>
                    stored_key_field (unat (ht_max_key_length ht)) key' =
                      stored_key_field (unat (ht_max_key_length ht)) key)"
proof -
  let ?M = "unat (ht_max_key_length ht)"
  obtain c0 where c0: "c0 < ht_table_size ht" "h (occupied_flag ht c0) = 0"
    using free_bucket_exists [OF occ] by blast
  from ht_put_succeeds [where h = h and c = c0 and key = key, OF wf val c0(1) c0(2)]
  obtain j where j: "ht_put ht h key val =
      Inr (True, fill_bucket ht h (probe_index ht (hash_function key mod ht_table_size ht) j) key val)"
    by blast
  let ?c = "probe_index ht (hash_function key mod ht_table_size ht) j"
  have 1: "?c < ht_table_size ht" using wf by (rule probe_index_less)
  have m0: "ht_max_key_length ht \<noteq> 0" using wf by (simp add: ht_wf_def)
  then have "ht_max_key_length ht - 1 < ht_max_key_length ht"
    by (simp add: word_less_nat_alt unat_minus_one unat_gt_0)
  then have 2: "fill_bucket ht h ?c key val (bucket_addr ht ?c + (ht_max_key_length ht - 1)) = 0"
    by (simp add: fill_bucket_key_byte [OF wf])
  have nz: "\<forall>x \<in> set (take (?M - 1) (cstr key)). x \<noteq> 0"
  proof
    fix x assume "x \<in> set (take (?M - 1) (cstr key))"
    then have "x \<in> set (takeWhile (\<lambda>c. c \<noteq> 0) key)"
      unfolding cstr_def by (rule in_set_takeD)
    then show "x \<noteq> 0" by (rule set_takeWhileD [THEN conjunct2])
  qed
  have pos: "?M - length (take (?M - 1) (cstr key)) = Suc (?M - 1 - length (take (?M - 1) (cstr key)))"
  proof -
    have "0 < ?M" using m0 by (simp add: unat_gt_0)
    moreover have "length (take (?M - 1) (cstr key)) \<le> ?M - 1" by simp
    ultimately show ?thesis by linarith
  qed
  have "takeWhile (\<lambda>b. b \<noteq> 0) (stored_key_field ?M key) = take (?M - 1) (cstr key)"
    unfolding stored_key_field_def pos using nz by (simp add: takeWhile_append2)
  then have 3: "length (takeWhile (\<lambda>b. b \<noteq> 0) (stored_key_field ?M key)) \<le> ?M - 1"
    by simp
  have 4: "\<forall>key'. take (?M - 1) (cstr key') = take (?M - 1) (cstr key) \<longrightarrow>
             stored_key_field ?M key' = stored_key_field ?M key"
    by (simp add: stored_key_field_def)
  have 5: "read_bytes (fill_bucket ht h ?c key val) (bucket_addr ht ?c) ?M = stored_key_field ?M key"
    using wf by (rule fill_bucket_key_field)
  show ?thesis
    using j 1 2 3 4 5 by (intro exI [of _ ?c] conjI)
qed

section \<open>FixedMap: a table of two buckets\<close>

text \<open>The table used in the examples: two buckets at address \<open>0x1000\<close>, keys of at most
  two bytes with their terminator, values of one byte, so a bucket has four bytes.  The keys
  \<open>"a"\<close> (byte 97) and \<open>"c"\<close> (byte 99) both hash to bucket 1; \<open>"ab"\<close> hashes to
  bucket 1 and \<open>"ac"\<close> to bucket 0.\<close>

definition ex_ht :: fixed_hash_table_t where
  "ex_ht = fst (ht_init 0x1000 2 2 1 (\<lambda>_. 0xAA))"

definition ex_h0 :: heap where
  "ex_h0 = snd (ht_init 0x1000 2 2 1 (\<lambda>_. 0xAA))"

lemma ex_ht_simps [simp]:
  "ht_memory ex_ht = 0x1000" "ht_table_size ex_ht = 2" "ht_max_key_length ex_ht = 2"
  "ht_value_size ex_ht = 1" "ht_bucket_size ex_ht = 4"
  by (simp_all add: ex_ht_def ht_init_def Let_def)

lemma ex_addrs [simp]:
  "bucket_addr ex_ht 0 = 0x1000" "bucket_addr ex_ht 1 = 0x1004"
  "occupied_flag ex_ht 0 = 0x1003" "occupied_flag ex_ht 1 = 0x1007"
  by (simp_all add: bucket_addr_def occupied_flag_def)

lemma ex_hash [simp]:
  "hash_function [97] = 97" "hash_function [99] = 99"
  "hash_function [97, 98] = 3105" "hash_function [97, 99] = 3106"
  by (simp_all add: hash_function_def)

lemma ex_wf: "ht_wf ex_ht"
  by (simp add: ht_wf_def)

lemma ex_h0_simps [simp]:
  "ex_h0 0x1000 = 0" "ex_h0 0x1001 = 0" "ex_h0 0x1002 = 0" "ex_h0 0x1003 = 0"
  "ex_h0 0x1004 = 0" "ex_h0 0x1005 = 0" "ex_h0 0x1006 = 0" "ex_h0 0x1007 = 0"
  by (simp_all add: ex_h0_def ht_init_def Let_def memset_def)

lemma ex_occupancy_h0: "ht_occupancy ex_ht ex_h0 = 0"
  by (simp add: ht_occupancy_def upt_rec)

lemmas fill_bucket_eval = fill_bucket_def Let_def strncpy_def memcpy_def cstr_def

text \<open>\<open>put("a", 1)\<close> on the empty table fills bucket 1.\<close>

definition ex_h1 :: heap where
  "ex_h1 = fill_bucket ex_ht ex_h0 1 [97] [1]"

lemma ex_put_a: "ht_put ex_ht ex_h0 [97] [1] = Inr (True, ex_h1)"
  by (simp add: ht_put_def ht_put_loop.simps ex_h1_def)

lemma ex_h1_simps [simp]:
  "ex_h1 0x1000 = 0" "ex_h1 0x1001 = 0" "ex_h1 0x1002 = 0" "ex_h1 0x1003 = 0"
  "ex_h1 0x1004 = 97" "ex_h1 0x1005 = 0" "ex_h1 0x1006 = 1" "ex_h1 0x1007 = 1"
  by (simp_all add: ex_h1_def fill_bucket_eval)

text \<open>\<open>put("c", 2)\<close> finds bucket 1 taken by another key and fills bucket 0.\<close>

definition ex_h2 :: heap where
  "ex_h2 = fill_bucket ex_ht ex_h1 0 [99] [2]"

lemma ex_put_c: "ht_put ex_ht ex_h1 [99] [2] = Inr (True, ex_h2)"
  by (simp add: ht_put_def ht_put_loop.simps ex_h2_def)

lemma ex_h2_simps [simp]:
  "ex_h2 0x1000 = 99" "ex_h2 0x1001 = 0" "ex_h2 0x1002 = 2" "ex_h2 0x1003 = 1"
  "ex_h2 0x1004 = 97" "ex_h2 0x1005 = 0" "ex_h2 0x1006 = 1" "ex_h2 0x1007 = 1"
  by (simp_all add: ex_h2_def fill_bucket_eval)

text \<open>\<open>remove("a")\<close> clears the flag of bucket 1.\<close>

definition ex_h3 :: heap where
  "ex_h3 = ex_h2(0x1007 := 0)"

lemma ex_remove_a: "ht_remove ex_ht ex_h2 [97] = Inr (True, ex_h3)"
  by (simp add: ht_remove_def ht_remove_loop.simps ex_h3_def)

lemma ex_h3_simps [simp]:
  "ex_h3 0x1000 = 99" "ex_h3 0x1001 = 0" "ex_h3 0x1002 = 2" "ex_h3 0x1003 = 1"
  "ex_h3 0x1004 = 97" "ex_h3 0x1005 = 0" "ex_h3 0x1006 = 1" "ex_h3 0x1007 = 0"
  by (simp_all add: ex_h3_def)

text \<open>C3.  In the table of two buckets, \<open>"a"\<close> and \<open>"c"\<close> hash to the same bucket 1;
  \<open>"a"\<close> is put first and takes bucket 1, \<open>"c"\<close> is put second and is placed in
  bucket 0 by probing.  After \<open>remove("a")\<close> has returned true, \<open>get("c")\<close> stops at the
  unoccupied bucket 1 and returns false (and so does \<open>contains\<close>), although bucket 0 is
  still occupied and still holds the key \<open>"c"\<close> and its value.\<close>

theorem remove_breaks_probe_chain:
  "hash_function [97] mod ht_table_size ex_ht = 1 \<and>
   hash_function [99] mod ht_table_size ex_ht = 1 \<and>
   ht_put ex_ht ex_h0 [97] [1] = Inr (True, fill_bucket ex_ht ex_h0 1 [97] [1]) \<and>
   ht_put ex_ht ex_h1 [99] [2] = Inr (True, fill_bucket ex_ht ex_h1 0 [99] [2]) \<and>
   ht_get ex_ht ex_h2 [99] = Inr (Some [2]) \<and>
   ht_remove ex_ht ex_h2 [97] = Inr (True, ex_h3) \<and>
   ex_h3 (occupied_flag ex_ht 1) = 0 \<and>
   ht_get ex_ht ex_h3 [99] = Inr None \<and>
   ht_contains ex_ht ex_h3 [99] = Inr False \<and>
   ex_h3 (occupied_flag ex_ht 0) = 1 \<and>
   strcmp ex_h3 (bucket_addr ex_ht 0) [99] = 0 \<and>
   read_bytes ex_h3 (bucket_addr ex_ht 0 + ht_max_key_length ex_ht) (unat (ht_value_size ex_ht)) = [2]"
proof -
  have g2: "ht_get ex_ht ex_h2 [99] = Inr (Some [2])"
    by (simp add: ht_get_def ht_get_loop.simps read_bytes_def)
  have g3: "ht_get ex_ht ex_h3 [99] = Inr None"
    by (simp add: ht_get_def ht_get_loop.simps)
  have c3: "ht_contains ex_ht ex_h3 [99] = Inr False"
    by (simp add: ht_contains_def g3)
  have r: "read_bytes ex_h3 (bucket_addr ex_ht 0 + ht_max_key_length ex_ht)
             (unat (ht_value_size ex_ht)) = [2]"
    by (simp add: read_bytes_def)
  show ?thesis
    using ex_put_a ex_put_c ex_remove_a g2 g3 c3 r
    by (simp add: ex_h1_def [symmetric] ex_h2_def [symmetric])
qed

text \<open>The round trip on the table of two buckets, for the key \<open>"a"\<close>.\<close>

theorem ht_put_get_roundtrip_witness:
  "ht_wf ex_ht \<and> length (cstr [97]) < unat (ht_max_key_length ex_ht) \<and>
   length [1 :: byte] = unat (ht_value_size ex_ht) \<and>
   ht_occupancy ex_ht ex_h0 < unat (ht_table_size ex_ht) \<and>
   (\<exists>h'. ht_put ex_ht ex_h0 [97] [1] = Inr (True, h') \<and> ht_get ex_ht h' [97] = Inr (Some [1]))"
proof -
  have k: "length (cstr [97]) < unat (ht_max_key_length ex_ht)" by (simp add: cstr_def)
  have v: "length [1 :: byte] = unat (ht_value_size ex_ht)" by simp
  have o: "ht_occupancy ex_ht ex_h0 < unat (ht_table_size ex_ht)" by (simp add: ex_occupancy_h0)
  show ?thesis
    using ex_wf k v o ht_put_get_roundtrip [OF ex_wf k v o] by blast
qed

text \<open>\<open>put("ab", 7)\<close> on the empty table stores the key \<open>"a"\<close> in bucket 1.\<close>

definition ex_l1 :: heap where
  "ex_l1 = fill_bucket ex_ht ex_h0 1 [97, 98] [7]"

lemma ex_put_ab: "ht_put ex_ht ex_h0 [97, 98] [7] = Inr (True, ex_l1)"
  by (simp add: ht_put_def ht_put_loop.simps ex_l1_def)

lemma ex_l1_simps [simp]:
  "ex_l1 0x1000 = 0" "ex_l1 0x1001 = 0" "ex_l1 0x1002 = 0" "ex_l1 0x1003 = 0"
  "ex_l1 0x1004 = 97" "ex_l1 0x1005 = 0" "ex_l1 0x1006 = 7" "ex_l1 0x1007 = 1"
  by (simp_all add: ex_l1_def fill_bucket_eval)

text \<open>C2.  The claim promises, for every key whose length is within \<open>max_key_length\<close>
  and every value of \<open>value_size\<close> bytes, that \<open>put\<close> succeeds and the \<open>get\<close>
  that follows returns the value, while the table has an unoccupied bucket.  The struct
  documents \<open>max_key_length\<close> as the greatest number of characters of a key.  With
  \<open>max_key_length = 2\<close>, the key \<open>"ab"\<close> of two characters and a value of one
  byte, on the empty table, \<open>ht_put\<close> returns true and the \<open>ht_get\<close> of the same key
  returns false: \<open>ht_put\<close> copies \<open>max_key_length - 1\<close> characters, so the bucket
  holds \<open>"a"\<close>, which the \<open>strcmp\<close> of \<open>ht_get\<close> finds different from
  \<open>"ab"\<close>.\<close>

theorem ht_put_get_full_length_key:
  "ht_wf ex_ht \<and> length [97, 98 :: byte] \<le> unat (ht_max_key_length ex_ht) \<and>
   length [7 :: byte] = unat (ht_value_size ex_ht) \<and>
   ht_occupancy ex_ht ex_h0 < unat (ht_table_size ex_ht) \<and>
   ht_put ex_ht ex_h0 [97, 98] [7] = Inr (True, ex_l1) \<and>
   ht_occupancy ex_ht ex_l1 < unat (ht_table_size ex_ht) \<and>
   ht_get ex_ht ex_l1 [97, 98] = Inr None"
proof -
  have "ht_get ex_ht ex_l1 [97, 98] = Inr None"
    by (simp add: ht_get_def ht_get_loop.simps)
  moreover have "ht_occupancy ex_ht ex_l1 = 1"
    by (simp add: ht_occupancy_def upt_rec)
  ultimately show ?thesis
    using ex_wf ex_put_ab by (simp add: ex_occupancy_h0)
qed

text \<open>C10.  The claim says that \<open>put\<close> stores at most \<open>max_key_length - 1\<close>
  characters behind which it forces a terminator, returns true for longer keys, and that
  therefore two keys that agree on their first \<open>max_key_length - 1\<close> characters are
  the same key to \<open>put\<close>, \<open>get\<close>, \<open>remove\<close> and \<open>contains\<close>.
  \<open>"ab"\<close> and \<open>"ac"\<close> agree on their first \<open>max_key_length - 1 = 1\<close> characters.
  After \<open>put("ab", 7)\<close> has returned true, \<open>get\<close>, \<open>contains\<close> and \<open>remove\<close>
  of \<open>"ac"\<close> (and of \<open>"ab"\<close> itself) return false, and \<open>put("ac", 8)\<close> does not
  update the bucket of \<open>"ab"\<close> but fills bucket 0, leaving the value 7 where it was:
  \<open>ht_put\<close> truncates the key it stores, and all four operations compare the stored
  key with the whole key they are given.\<close>

theorem truncated_keys_not_same:
  "take (unat (ht_max_key_length ex_ht) - 1) [97, 98 :: byte] =
     take (unat (ht_max_key_length ex_ht) - 1) [97, 99] \<and>
   ht_put ex_ht ex_h0 [97, 98] [7] = Inr (True, ex_l1) \<and>
   ht_get ex_ht ex_l1 [97, 99] = Inr None \<and>
   ht_contains ex_ht ex_l1 [97, 99] = Inr False \<and>
   ht_remove ex_ht ex_l1 [97, 99] = Inr (False, ex_l1) \<and>
   ht_contains ex_ht ex_l1 [97, 98] = Inr False \<and>
   ht_remove ex_ht ex_l1 [97, 98] = Inr (False, ex_l1) \<and>
   ht_put ex_ht ex_l1 [97, 99] [8] = Inr (True, fill_bucket ex_ht ex_l1 0 [97, 99] [8]) \<and>
   fill_bucket ex_ht ex_l1 0 [97, 99] [8] (bucket_addr ex_ht 1 + ht_max_key_length ex_ht) = 7"
proof -
  have g: "ht_get ex_ht ex_l1 [97, 99] = Inr None"
    by (simp add: ht_get_def ht_get_loop.simps)
  have g': "ht_get ex_ht ex_l1 [97, 98] = Inr None"
    by (simp add: ht_get_def ht_get_loop.simps)
  have r: "ht_remove ex_ht ex_l1 [97, 99] = Inr (False, ex_l1)"
    by (simp add: ht_remove_def ht_remove_loop.simps)
  have r': "ht_remove ex_ht ex_l1 [97, 98] = Inr (False, ex_l1)"
    by (simp add: ht_remove_def ht_remove_loop.simps)
  have p: "ht_put ex_ht ex_l1 [97, 99] [8] = Inr (True, fill_bucket ex_ht ex_l1 0 [97, 99] [8])"
    by (simp add: ht_put_def ht_put_loop.simps)
  have v: "fill_bucket ex_ht ex_l1 0 [97, 99] [8] (bucket_addr ex_ht 1 + ht_max_key_length ex_ht) = 7"
    by (simp add: fill_bucket_eval)
  show ?thesis
    using ex_put_ab g g' r r' p v by (simp add: ht_contains_def)
qed

text \<open>The entry that \<open>put("ab", 7)\<close> made is found under the key \<open>"a"\<close>, the
  truncated form itself, whose probe sequence starts at the same bucket.\<close>

lemma truncated_key_found_by_prefix:
  "ht_put ex_ht ex_h0 [97, 98] [7] = Inr (True, ex_l1) \<and>
   ht_get ex_ht ex_l1 [97] = Inr (Some [7]) \<and>
   ht_contains ex_ht ex_l1 [97] = Inr True"
proof -
  have "ht_get ex_ht ex_l1 [97] = Inr (Some [7])"
    by (simp add: ht_get_def ht_get_loop.simps read_bytes_def)
  then show ?thesis using ex_put_ab by (simp add: ht_contains_def)
qed

text \<open>The truncation on the table of two buckets, for the key \<open>"ab"\<close>.\<close>

theorem ht_put_truncates_key_witness:
  "ht_wf ex_ht \<and> unat (ht_value_size ex_ht) \<le> length [7 :: byte] \<and>
   ht_occupancy ex_ht ex_h0 < unat (ht_table_size ex_ht) \<and>
   (\<exists>c. c < ht_table_size ex_ht \<and>
        ht_put ex_ht ex_h0 [97, 98] [7] = Inr (True, fill_bucket ex_ht ex_h0 c [97, 98] [7]) \<and>
        read_bytes (fill_bucket ex_ht ex_h0 c [97, 98] [7]) (bucket_addr ex_ht c)
          (unat (ht_max_key_length ex_ht)) = [97, 0] \<and>
        fill_bucket ex_ht ex_h0 c [97, 98] [7] (bucket_addr ex_ht c + (ht_max_key_length ex_ht - 1)) = 0) \<and>
   stored_key_field (unat (ht_max_key_length ex_ht)) [97, 99] = [97, 0]"
proof -
  have v: "unat (ht_value_size ex_ht) \<le> length [7 :: byte]" by simp
  have o: "ht_occupancy ex_ht ex_h0 < unat (ht_table_size ex_ht)" by (simp add: ex_occupancy_h0)
  have s: "stored_key_field (unat (ht_max_key_length ex_ht)) [97, 98] = [97, 0]"
    "stored_key_field (unat (ht_max_key_length ex_ht)) [97, 99] = [97, 0]"
    by (simp_all add: stored_key_field_def cstr_def)
  from ht_put_truncates_key [OF ex_wf v o, of "[97, 98]"]
  obtain c where "c < ht_table_size ex_ht"
    "ht_put ex_ht ex_h0 [97, 98] [7] = Inr (True, fill_bucket ex_ht ex_h0 c [97, 98] [7])"
    "read_bytes (fill_bucket ex_ht ex_h0 c [97, 98] [7]) (bucket_addr ex_ht c)
       (unat (ht_max_key_length ex_ht)) = stored_key_field (unat (ht_max_key_length ex_ht)) [97, 98]"
    "fill_bucket ex_ht ex_h0 c [97, 98] [7] (bucket_addr ex_ht c + (ht_max_key_length ex_ht - 1)) = 0"
    by blast
  then show ?thesis using ex_wf v o s by (intro conjI exI [of _ c]) simp_all
qed

section \<open>Failure leaves the state unchanged\<close>

text \<open>C4.  An operation that reports failure returns the struct and the store it was
  given: \<open>cb_write\<close> on a full queue and whenever it returns false, \<open>cb_read\<close>
  when it returns false, \<open>stack_alloc\<close> when the request exceeds the space left,
  \<open>mp_alloc\<close> when it returns \<open>NULL\<close>, \<open>ht_put\<close> and \<open>ht_remove\<close> when they
  return false.  \<open>ht_get\<close> and \<open>ht_contains\<close> (like \<open>cb_read\<close> and \<open>mp_alloc\<close>)
  never write the store at all, in success or in failure, which is why they return none.\<close>

theorem failure_leaves_state_unchanged:
  "(cb_is_full cb1 \<longrightarrow> cb_write cb1 h1 d = Inr (False, cb1, h1)) \<and>
   (cb_write cb2 h2 d2 = Inr (False, cb2', h2') \<longrightarrow> cb2' = cb2 \<and> h2' = h2) \<and>
   (cb_is_empty cb3 \<longrightarrow> cb_read cb3 h3 = Inr (None, cb3)) \<and>
   (cb_read cb4 h4 = Inr (None, cb4') \<longrightarrow> cb4' = cb4) \<and>
   (sa_size sa < sa_top sa + n \<longrightarrow> stack_alloc sa n = (NULL, sa)) \<and>
   (mp_free_list mp1 = NULL \<longrightarrow> mp_alloc mp1 h5 = (NULL, mp1)) \<and>
   (mp_alloc mp2 h6 = (NULL, mp2') \<longrightarrow> mp2' = mp2) \<and>
   (ht_put ht1 h7 key1 val1 = Inr (False, h7') \<longrightarrow> h7' = h7) \<and>
   (ht_remove ht2 h8 key2 = Inr (False, h8') \<longrightarrow> h8' = h8)"
proof -
  have 1: "cb_is_full cb1 \<longrightarrow> cb_write cb1 h1 d = Inr (False, cb1, h1)"
    by (simp add: cb_write_def)
  have 2: "cb_write cb2 h2 d2 = Inr (False, cb2', h2') \<longrightarrow> cb2' = cb2 \<and> h2' = h2"
    by (auto simp: cb_write_def split: if_splits)
  have 3: "cb_is_empty cb3 \<longrightarrow> cb_read cb3 h3 = Inr (None, cb3)"
    by (simp add: cb_read_def)
  have 4: "cb_read cb4 h4 = Inr (None, cb4') \<longrightarrow> cb4' = cb4"
    by (auto simp: cb_read_def split: if_splits)
  have 5: "sa_size sa < sa_top sa + n \<longrightarrow> stack_alloc sa n = (NULL, sa)"
    by (simp add: stack_alloc_def)
  have 6: "mp_free_list mp1 = NULL \<longrightarrow> mp_alloc mp1 h5 = (NULL, mp1)"
    by (simp add: mp_alloc_def)
  have 7: "mp_alloc mp2 h6 = (NULL, mp2') \<longrightarrow> mp2' = mp2"
    by (auto simp: mp_alloc_def split: if_splits)
  have 8: "ht_put ht1 h7 key1 val1 = Inr (False, h7') \<longrightarrow> h7' = h7"
    by (auto simp: ht_put_def split: if_splits dest: ht_put_loop_False)
  have 9: "ht_remove ht2 h8 key2 = Inr (False, h8') \<longrightarrow> h8' = h8"
    by (auto simp: ht_remove_def split: if_splits dest: ht_remove_loop_False)
  show ?thesis using 1 2 3 4 5 6 7 8 9 by blast
qed

text \<open>Each failure at a concrete state: a full queue of two bytes, an empty queue, an
  arena of 100 bytes asked for 200, a pool whose chain is empty, and the table of two
  buckets holding \<open>"a"\<close> and \<open>"c"\<close>, asked to put and to remove \<open>"e"\<close>.\<close>

theorem failure_leaves_state_unchanged_witness:
  "cb_is_full \<lparr>cb_buffer = 0x1000, cb_size = 2, cb_head = 0, cb_tail = 0, cb_count = 2\<rparr> \<and>
   cb_write \<lparr>cb_buffer = 0x1000, cb_size = 2, cb_head = 0, cb_tail = 0, cb_count = 2\<rparr> ex_h0 9 =
     Inr (False, \<lparr>cb_buffer = 0x1000, cb_size = 2, cb_head = 0, cb_tail = 0, cb_count = 2\<rparr>, ex_h0) \<and>
   cb_is_empty (cb_init 0x1000 2) \<and>
   cb_read (cb_init 0x1000 2) ex_h0 = Inr (None, cb_init 0x1000 2) \<and>
   sa_size (stack_init 0x1000 100) < sa_top (stack_init 0x1000 100) + 200 \<and>
   stack_alloc (stack_init 0x1000 100) 200 = (NULL, stack_init 0x1000 100) \<and>
   mp_free_list \<lparr>mp_memory = 0x1000, mp_total_size = 64, mp_block_size = 32, mp_free_list = NULL\<rparr> = NULL \<and>
   mp_alloc \<lparr>mp_memory = 0x1000, mp_total_size = 64, mp_block_size = 32, mp_free_list = NULL\<rparr> ex_h0 =
     (NULL, \<lparr>mp_memory = 0x1000, mp_total_size = 64, mp_block_size = 32, mp_free_list = NULL\<rparr>) \<and>
   ht_put ex_ht ex_h2 [101] [5] = Inr (False, ex_h2) \<and>
   ht_remove ex_ht ex_h2 [101] = Inr (False, ex_h2)"
proof -
  let ?cb = "\<lparr>cb_buffer = 0x1000, cb_size = 2, cb_head = 0, cb_tail = 0, cb_count = 2\<rparr>"
  let ?mp = "\<lparr>mp_memory = 0x1000, mp_total_size = 64, mp_block_size = 32, mp_free_list = NULL\<rparr>"
  have full: "cb_is_full ?cb" by (simp add: cb_is_full_def)
  have empty: "cb_is_empty (cb_init 0x1000 2)" by (simp add: cb_is_empty_def cb_init_def)
  have space: "sa_size (stack_init 0x1000 100) < sa_top (stack_init 0x1000 100) + 200"
    by (simp add: stack_init_def)
  have chain: "mp_free_list ?mp = NULL" by simp
  obtain hp where p: "ht_put ex_ht ex_h2 [101] [5] = Inr (False, hp)"
    by (simp add: ht_put_def ht_put_loop.simps hash_function_def)
  obtain hr where r: "ht_remove ex_ht ex_h2 [101] = Inr (False, hr)"
    by (simp add: ht_remove_def ht_remove_loop.simps hash_function_def)
  from failure_leaves_state_unchanged
    [of ?cb ex_h0 9 ?cb ex_h0 9 ?cb ex_h0 "cb_init 0x1000 2" ex_h0 "cb_init 0x1000 2" ex_h0
        "cb_init 0x1000 2" "stack_init 0x1000 100" 200 ?mp ex_h0 ?mp ex_h0 ?mp
        ex_ht ex_h2 "[101]" "[5]" hp ex_ht ex_h2 "[101]" hr]
  show ?thesis
    using full empty space chain p r by simp
qed

section \<open>FixedMap: the key stored in a bucket\<close>

text \<open>The key a bucket holds is the string in its key field, and a bucket is occupied
  when its flag byte is not zero.\<close>

definition bucket_key :: "fixed_hash_table_t \<Rightarrow> heap \<Rightarrow> 64 word \<Rightarrow> byte list" where
  "bucket_key ht h c = cstr (read_bytes h (bucket_addr ht c) (unat (ht_max_key_length ht)))"

definition occupied :: "fixed_hash_table_t \<Rightarrow> heap \<Rightarrow> 64 word \<Rightarrow> bool" where
  "occupied ht h c \<longleftrightarrow> h (occupied_flag ht c) \<noteq> 0"

lemma strcmp_cstring:
  assumes chars: "\<forall>i < length s. h (a + of_nat i) = s ! i"
    and z: "h (a + of_nat (length s)) = 0" and nz: "0 \<notin> set s"
  shows "(strcmp h a key = 0) = (cstr key = s)"
proof
  assume "cstr key = s"
  then show "strcmp h a key = 0" using chars z by (auto simp: strcmp_zero_iff)
next
  let ?n = "length (cstr key)"
  assume "strcmp h a key = 0"
  then have all: "\<forall>i < ?n. h (a + of_nat i) = cstr key ! i" and z': "h (a + of_nat ?n) = 0"
    by (simp_all add: strcmp_zero_iff)
  have "\<not> ?n < length s"
  proof
    assume "?n < length s"
    then have "h (a + of_nat ?n) = s ! ?n" "s ! ?n \<in> set s" using chars by auto
    then show False using z' nz by auto
  qed
  moreover have "\<not> length s < ?n"
  proof
    assume l: "length s < ?n"
    then have "h (a + of_nat (length s)) = cstr key ! length s" using all by simp
    moreover have "cstr key ! length s \<noteq> 0" using l by (rule cstr_nonzero)
    ultimately show False using z by simp
  qed
  ultimately have n: "?n = length s" by simp
  show "cstr key = s"
  proof (rule nth_equalityI)
    show "?n = length s" by (rule n)
  next
    fix i assume "i < ?n"
    then show "cstr key ! i = s ! i" using all chars n by auto
  qed
qed

lemma bucket_key_spec:
  assumes wf: "ht_wf ht" and t: "h (bucket_addr ht c + (ht_max_key_length ht - 1)) = 0"
  shows "length (bucket_key ht h c) < unat (ht_max_key_length ht)"
    and "\<forall>i < length (bucket_key ht h c). h (bucket_addr ht c + of_nat i) = bucket_key ht h c ! i"
    and "h (bucket_addr ht c + of_nat (length (bucket_key ht h c))) = 0"
    and "0 \<notin> set (bucket_key ht h c)"
proof -
  let ?M = "unat (ht_max_key_length ht)" and ?a = "bucket_addr ht c"
  let ?bs = "read_bytes h ?a ?M"
  let ?s = "bucket_key ht h c"
  have s: "?s = takeWhile (\<lambda>b. b \<noteq> 0) ?bs" by (simp add: bucket_key_def cstr_def)
  have len: "length ?bs = ?M" by (simp add: read_bytes_def)
  have nth: "?bs ! i = h (?a + of_nat i)" if "i < ?M" for i
    using that by (simp add: read_bytes_def)
  have m0: "ht_max_key_length ht \<noteq> 0" using wf by (simp add: ht_wf_def)
  then have M0: "0 < ?M" by (simp add: unat_gt_0)
  have "of_nat (?M - 1) = ht_max_key_length ht - 1"
    using M0 by (simp add: of_nat_diff)
  then have last: "?bs ! (?M - 1) = 0" using t M0 by (simp add: nth)
  show 1: "length ?s < ?M"
  proof (rule ccontr)
    assume "\<not> length ?s < ?M"
    then have "length ?s = length ?bs" using length_takeWhile_le [of "\<lambda>b. b \<noteq> 0" ?bs] len s by simp
    then have "?M - 1 < length ?s" using M0 len by simp
    then have "?s ! (?M - 1) \<in> set ?s" by (rule nth_mem)
    moreover have "?s ! (?M - 1) = ?bs ! (?M - 1)"
      using \<open>?M - 1 < length ?s\<close> s takeWhile_nth [of "?M - 1" "\<lambda>b. b \<noteq> 0" ?bs] by simp
    ultimately have "0 \<in> set (takeWhile (\<lambda>b. b \<noteq> 0) ?bs)" using last s by simp
    then show False using set_takeWhileD [of 0 "\<lambda>b. b \<noteq> 0" ?bs] by auto
  qed
  show "\<forall>i < length ?s. h (?a + of_nat i) = ?s ! i"
  proof (intro allI impI)
    fix i assume i: "i < length ?s"
    then have "?s ! i = ?bs ! i" using s takeWhile_nth [of i "\<lambda>b. b \<noteq> 0" ?bs] by simp
    then show "h (?a + of_nat i) = ?s ! i" using i 1 by (simp add: nth)
  qed
  have "length (takeWhile (\<lambda>b. b \<noteq> 0) ?bs) < length ?bs" using 1 s len by simp
  then have "\<not> ?bs ! length (takeWhile (\<lambda>b. b \<noteq> 0) ?bs) \<noteq> 0" by (rule nth_length_takeWhile)
  then show "h (?a + of_nat (length ?s)) = 0" using 1 s by (simp add: nth)
  show "0 \<notin> set ?s" using set_takeWhileD [of 0 "\<lambda>b. b \<noteq> 0" ?bs] s by auto
qed

lemma bucket_key_strcmp:
  assumes wf: "ht_wf ht" and t: "h (bucket_addr ht c + (ht_max_key_length ht - 1)) = 0"
  shows "(strcmp h (bucket_addr ht c) key = 0) = (cstr key = bucket_key ht h c)"
  using bucket_key_spec(2,3,4) [where h = h, OF wf t] by (rule strcmp_cstring)

lemma bucket_key_unique:
  assumes chars: "\<forall>i < length s. h (bucket_addr ht c + of_nat i) = s ! i"
    and z: "h (bucket_addr ht c + of_nat (length s)) = 0" and nz: "0 \<notin> set s"
    and len: "length s < unat (ht_max_key_length ht)"
  shows "bucket_key ht h c = s"
proof -
  let ?M = "unat (ht_max_key_length ht)" and ?a = "bucket_addr ht c"
  let ?bs = "read_bytes h ?a ?M"
  have nth: "?bs ! i = h (?a + of_nat i)" if "i < ?M" for i
    using that by (simp add: read_bytes_def)
  have "takeWhile (\<lambda>b. b \<noteq> 0) ?bs = take (length s) ?bs"
  proof (rule takeWhile_eq_take_P_nth)
    fix i assume i: "i < length s" "i < length ?bs"
    then have "?bs ! i = s ! i" using chars len by (simp add: nth)
    moreover have "s ! i \<in> set s" using i by simp
    ultimately show "?bs ! i \<noteq> 0" using nz by metis
  next
    show "\<not> ?bs ! length s \<noteq> 0" using z len by (simp add: nth)
  qed
  moreover have "take (length s) ?bs = s"
  proof (rule nth_equalityI)
    show "length (take (length s) ?bs) = length s" using len by (simp add: read_bytes_def)
  next
    fix i assume "i < length (take (length s) ?bs)"
    then have "i < length s" by simp
    then show "take (length s) ?bs ! i = s ! i" using chars len by (simp add: nth)
  qed
  ultimately show ?thesis by (simp add: bucket_key_def cstr_def)
qed

lemma cstr_no_zero: "0 \<notin> set (cstr key)"
  using set_takeWhileD [of 0 "\<lambda>c. c \<noteq> 0" key] by (auto simp: cstr_def)

lemma bucket_key_fill_same:
  assumes wf: "ht_wf ht" and len: "length (cstr k) < unat (ht_max_key_length ht)"
  shows "bucket_key ht (fill_bucket ht h c k v) c = cstr k"
  using fill_bucket_key_chars [OF wf len] cstr_no_zero len
  by (intro bucket_key_unique) auto

lemma bucket_key_fill_other:
  assumes wf: "ht_wf ht" and c: "c < ht_table_size ht" and c': "c' < ht_table_size ht"
    and ne: "c \<noteq> c'"
  shows "bucket_key ht (fill_bucket ht h c k v) c' = bucket_key ht h c'"
proof -
  have "fill_bucket ht h c k v (bucket_addr ht c' + of_nat i) = h (bucket_addr ht c' + of_nat i)"
    if "i < unat (ht_max_key_length ht)" for i
    using fill_bucket_other [OF wf c c' ne] key_byte_in_bucket [OF wf that] by blast
  then have "read_bytes (fill_bucket ht h c k v) (bucket_addr ht c') (unat (ht_max_key_length ht)) =
             read_bytes h (bucket_addr ht c') (unat (ht_max_key_length ht))"
    by (simp add: read_bytes_def)
  then show ?thesis by (simp add: bucket_key_def)
qed

lemma hash_loop_cstr: "hash_loop x (cstr key) = hash_loop x key"
  by (induction key arbitrary: x) (simp_all add: cstr_def)

lemma hash_function_cstr: "hash_function (cstr key) = hash_function key"
  by (simp add: hash_function_def hash_loop_cstr)

section \<open>FixedMap: what \<open>ht_put\<close> and \<open>ht_remove\<close> do to the store\<close>

lemma ht_put_loop_result:
  assumes "ht_put_loop ht h key val index i = Inr (ok, h')"
  shows "(\<not> ok \<and> h' = h) \<or>
         (ok \<and> (\<exists>j. i \<le> j \<and> j < ht_table_size ht \<and>
                  put_stops ht h key (probe_index ht index j) \<and>
                  (\<forall>k. i \<le> k \<and> k < j \<longrightarrow> \<not> put_stops ht h key (probe_index ht index k)) \<and>
                  h' = fill_bucket ht h (probe_index ht index j) key val))"
  using assms
proof (induction "unat (ht_table_size ht) - unat i" arbitrary: i rule: less_induct)
  case less
  show ?case
  proof (cases "i < ht_table_size ht")
    case False
    then show ?thesis using less.prems by (subst (asm) ht_put_loop.simps) simp
  next
    case ilt: True
    show ?thesis
    proof (cases "put_stops ht h key (probe_index ht index i)")
      case True
      then have "ok \<and> h' = fill_bucket ht h (probe_index ht index i) key val"
        using less.prems ilt
        by (subst (asm) ht_put_loop.simps)
           (auto simp: put_stops_def probe_index_def Let_def split: if_splits)
      then show ?thesis using True ilt by auto
    next
      case False
      have s: "unat (i + 1) = Suc (unat i)" using ilt by (rule unat_succ)
      have ii: "i \<le> i + 1" using s by (simp add: word_le_nat_alt)
      have dec: "unat (ht_table_size ht) - unat (i + 1) < unat (ht_table_size ht) - unat i"
        using ilt by (rule probe_decreases)
      have "ht_put_loop ht h key val index (i + 1) = Inr (ok, h')"
        using less.prems ilt False
        by (subst (asm) ht_put_loop.simps) (simp add: put_stops_def probe_index_def Let_def)
      from less.hyps [OF dec this]
      show ?thesis
      proof (elim disjE conjE exE)
        assume "\<not> ok" "h' = h"
        then show ?thesis by simp
      next
        fix j
        assume j: "ok" "i + 1 \<le> j" "j < ht_table_size ht"
          "put_stops ht h key (probe_index ht index j)"
          "\<forall>k. i + 1 \<le> k \<and> k < j \<longrightarrow> \<not> put_stops ht h key (probe_index ht index k)"
          "h' = fill_bucket ht h (probe_index ht index j) key val"
        have ij: "i \<le> j" using ii j(2) by simp
        have "\<not> put_stops ht h key (probe_index ht index k)" if k: "i \<le> k \<and> k < j" for k
        proof (cases "k = i")
          case True
          then show ?thesis using False by simp
        next
          case False
          then have "i < k" using k by auto
          then have "i + 1 \<le> k" by (rule word_succ_le)
          then show ?thesis using j(5) k by blast
        qed
        then show ?thesis using j ij by blast
      qed
    qed
  qed
qed

lemma ht_put_result:
  assumes "ht_put ht h key val = Inr (ok, h')"
  shows "(\<not> ok \<and> h' = h) \<or>
         (ok \<and> (\<exists>j. j < ht_table_size ht \<and>
                  put_stops ht h key (probe_index ht (hash_function key mod ht_table_size ht) j) \<and>
                  (\<forall>k. k < j \<longrightarrow>
                     \<not> put_stops ht h key
                         (probe_index ht (hash_function key mod ht_table_size ht) k)) \<and>
                  h' = fill_bucket ht h
                         (probe_index ht (hash_function key mod ht_table_size ht) j) key val))"
proof -
  have "ht_put_loop ht h key val (hash_function key mod ht_table_size ht) 0 = Inr (ok, h')"
    using assms by (simp add: ht_put_def split: if_splits)
  from ht_put_loop_result [OF this] show ?thesis by simp
qed

lemma ht_remove_loop_result:
  assumes "ht_remove_loop ht h key index i = (ok, h')"
  shows "h' = h \<or> (\<exists>c. c < ht_table_size ht \<and> h' = h(occupied_flag ht c := 0))"
  using assms
proof (induction ht h key index i rule: ht_remove_loop.induct)
  case (1 ht h key index i)
  show ?case
  proof (cases "i < ht_table_size ht")
    case False
    then show ?thesis using "1.prems" by (subst (asm) ht_remove_loop.simps) simp
  next
    case True
    let ?c = "(index + i) mod ht_table_size ht"
    have "0 < unat (ht_table_size ht)" using True by (simp add: word_less_nat_alt)
    then have c: "?c < ht_table_size ht" by (simp add: word_less_nat_alt unat_mod)
    consider "h (occupied_flag ht ?c) = 0"
      | "h (occupied_flag ht ?c) \<noteq> 0" "strcmp h (bucket_addr ht ?c) key = 0"
      | "h (occupied_flag ht ?c) \<noteq> 0" "strcmp h (bucket_addr ht ?c) key \<noteq> 0"
      by blast
    then show ?thesis
    proof cases
      case 1
      then show ?thesis using "1.prems" True by (subst (asm) ht_remove_loop.simps) (simp add: Let_def)
    next
      case 2
      then have "h' = h(occupied_flag ht ?c := 0)"
        using "1.prems" True by (subst (asm) ht_remove_loop.simps) (simp add: Let_def)
      then show ?thesis using c by blast
    next
      case 3
      then have "ht_remove_loop ht h key index (i + 1) = (ok, h')"
        using "1.prems" True by (subst (asm) ht_remove_loop.simps) (simp add: Let_def)
      then show ?thesis using "1.IH" [OF True refl 3(1) 3(2)] by simp
    qed
  qed
qed

lemma ht_remove_result:
  assumes "ht_remove ht h key = Inr (ok, h')"
  shows "h' = h \<or> (\<exists>c. c < ht_table_size ht \<and> h' = h(occupied_flag ht c := 0))"
proof -
  have "ht_remove_loop ht h key (hash_function key mod ht_table_size ht) 0 = (ok, h')"
    using assms by (simp add: ht_remove_def split: if_splits)
  then show ?thesis by (rule ht_remove_loop_result)
qed

section \<open>FixedMap: the invariant of a table without removals\<close>

text \<open>In a table built by \<open>ht_put\<close> alone, the key field of every occupied bucket is
  terminated, every occupied bucket is reached from the home bucket of its key through
  occupied buckets only, and no two occupied buckets hold the same key.\<close>

definition ht_terminated :: "fixed_hash_table_t \<Rightarrow> heap \<Rightarrow> bool" where
  "ht_terminated ht h \<longleftrightarrow>
     (\<forall>c. c < ht_table_size ht \<and> occupied ht h c \<longrightarrow>
          h (bucket_addr ht c + (ht_max_key_length ht - 1)) = 0)"

definition home :: "fixed_hash_table_t \<Rightarrow> heap \<Rightarrow> 64 word \<Rightarrow> 64 word" where
  "home ht h c = hash_function (bucket_key ht h c) mod ht_table_size ht"

definition ht_chained :: "fixed_hash_table_t \<Rightarrow> heap \<Rightarrow> bool" where
  "ht_chained ht h \<longleftrightarrow>
     (\<forall>c. c < ht_table_size ht \<and> occupied ht h c \<longrightarrow>
          (\<exists>j. j < ht_table_size ht \<and> probe_index ht (home ht h c) j = c \<and>
               (\<forall>k. k < j \<longrightarrow> occupied ht h (probe_index ht (home ht h c) k))))"

definition ht_distinct :: "fixed_hash_table_t \<Rightarrow> heap \<Rightarrow> bool" where
  "ht_distinct ht h \<longleftrightarrow>
     (\<forall>c c'. c < ht_table_size ht \<and> c' < ht_table_size ht \<and> c \<noteq> c' \<and>
            occupied ht h c \<and> occupied ht h c' \<longrightarrow> bucket_key ht h c \<noteq> bucket_key ht h c')"

definition ht_inv :: "fixed_hash_table_t \<Rightarrow> heap \<Rightarrow> bool" where
  "ht_inv ht h \<longleftrightarrow> ht_terminated ht h \<and> ht_chained ht h \<and> ht_distinct ht h"

lemma terminator_addr:
  assumes wf: "ht_wf ht"
  shows "bucket_addr ht c + (ht_max_key_length ht - 1) =
         bucket_addr ht c + of_nat (unat (ht_max_key_length ht) - 1)"
    and "unat (ht_max_key_length ht) - 1 < unat (ht_max_key_length ht)"
proof -
  have "0 < unat (ht_max_key_length ht)" using wf by (simp add: ht_wf_def unat_gt_0)
  then show "unat (ht_max_key_length ht) - 1 < unat (ht_max_key_length ht)" by simp
  from \<open>0 < unat (ht_max_key_length ht)\<close>
  show "bucket_addr ht c + (ht_max_key_length ht - 1) =
         bucket_addr ht c + of_nat (unat (ht_max_key_length ht) - 1)"
    by (simp add: of_nat_diff)
qed

lemma fill_bucket_facts:
  assumes wf: "ht_wf ht" and c: "c < ht_table_size ht"
    and len: "length (cstr key) < unat (ht_max_key_length ht)"
  shows "occupied ht (fill_bucket ht h c key val) c"
    and "bucket_key ht (fill_bucket ht h c key val) c = cstr key"
    and "fill_bucket ht h c key val (bucket_addr ht c + (ht_max_key_length ht - 1)) = 0"
    and "c' < ht_table_size ht \<Longrightarrow> c' \<noteq> c \<Longrightarrow>
           occupied ht (fill_bucket ht h c key val) c' = occupied ht h c' \<and>
           bucket_key ht (fill_bucket ht h c key val) c' = bucket_key ht h c' \<and>
           fill_bucket ht h c key val (bucket_addr ht c' + (ht_max_key_length ht - 1)) =
             h (bucket_addr ht c' + (ht_max_key_length ht - 1))"
proof -
  show "occupied ht (fill_bucket ht h c key val) c"
    by (simp add: occupied_def fill_bucket_flag)
  show "bucket_key ht (fill_bucket ht h c key val) c = cstr key"
    using wf len by (rule bucket_key_fill_same)
  have m0: "ht_max_key_length ht \<noteq> 0" using wf by (simp add: ht_wf_def)
  then have "ht_max_key_length ht - 1 < ht_max_key_length ht"
    by (simp add: word_less_nat_alt unat_minus_one unat_gt_0)
  then show "fill_bucket ht h c key val (bucket_addr ht c + (ht_max_key_length ht - 1)) = 0"
    by (simp add: fill_bucket_key_byte [OF wf])
  assume c': "c' < ht_table_size ht" and ne: "c' \<noteq> c"
  have ne': "c \<noteq> c'" using ne by simp
  have 1: "occupied ht (fill_bucket ht h c key val) c' = occupied ht h c'"
    using flag_fill_bucket_other [OF wf c c' ne'] by (simp add: occupied_def)
  have 2: "bucket_key ht (fill_bucket ht h c key val) c' = bucket_key ht h c'"
    using wf c c' ne' by (rule bucket_key_fill_other)
  have "(bucket_addr ht c' + of_nat (unat (ht_max_key_length ht) - 1)) - bucket_addr ht c'
          < ht_bucket_size ht"
    using wf terminator_addr(2) [OF wf] by (rule key_byte_in_bucket)
  then have 3: "fill_bucket ht h c key val (bucket_addr ht c' + (ht_max_key_length ht - 1)) =
             h (bucket_addr ht c' + (ht_max_key_length ht - 1))"
    using fill_bucket_other [OF wf c c' ne'] terminator_addr(1) [OF wf] by simp
  show "occupied ht (fill_bucket ht h c key val) c' = occupied ht h c' \<and>
           bucket_key ht (fill_bucket ht h c key val) c' = bucket_key ht h c' \<and>
           fill_bucket ht h c key val (bucket_addr ht c' + (ht_max_key_length ht - 1)) =
             h (bucket_addr ht c' + (ht_max_key_length ht - 1))"
    using 1 2 3 by simp
qed

lemma ht_inv_fill_bucket:
  assumes wf: "ht_wf ht" and inv: "ht_inv ht h"
    and len: "length (cstr key) < unat (ht_max_key_length ht)"
    and j: "j < ht_table_size ht"
    and stop: "put_stops ht h key (probe_index ht (hash_function key mod ht_table_size ht) j)"
    and before: "\<forall>k. k < j \<longrightarrow>
        \<not> put_stops ht h key (probe_index ht (hash_function key mod ht_table_size ht) k)"
  shows "ht_inv ht (fill_bucket ht h
                      (probe_index ht (hash_function key mod ht_table_size ht) j) key val)"
proof -
  let ?ix = "hash_function key mod ht_table_size ht"
  let ?c = "probe_index ht ?ix j"
  let ?h' = "fill_bucket ht h ?c key val"
  have tmd: "ht_terminated ht h" and chain: "ht_chained ht h" and dist: "ht_distinct ht h"
    using inv by (simp_all add: ht_inv_def)
  have c: "?c < ht_table_size ht" using wf by (rule probe_index_less)
  note ff = fill_bucket_facts [where h = h and val = val, OF wf c len]
  have other: "occupied ht ?h' c' = occupied ht h c' \<and> bucket_key ht ?h' c' = bucket_key ht h c' \<and>
      ?h' (bucket_addr ht c' + (ht_max_key_length ht - 1)) =
        h (bucket_addr ht c' + (ht_max_key_length ht - 1))"
    if "c' < ht_table_size ht" "c' \<noteq> ?c" for c'
    using ff(4) [OF that] .
  have was: "bucket_key ht h ?c = cstr key" if occ: "occupied ht h ?c"
  proof -
    have "strcmp h (bucket_addr ht ?c) key = 0"
      using stop occ by (simp add: put_stops_def occupied_def)
    moreover have "h (bucket_addr ht ?c + (ht_max_key_length ht - 1)) = 0"
      using tmd c occ by (simp add: ht_terminated_def)
    ultimately show ?thesis using bucket_key_strcmp [OF wf] by simp
  qed
  have mono: "occupied ht ?h' c' \<and> bucket_key ht ?h' c' = bucket_key ht h c'"
    if "c' < ht_table_size ht" "occupied ht h c'" for c'
  proof (cases "c' = ?c")
    case True
    then show ?thesis using ff(1,2) was that by simp
  next
    case False
    then show ?thesis using other that by simp
  qed
  have new: "c' = ?c \<or> occupied ht h c'"
    if "c' < ht_table_size ht" "occupied ht ?h' c'" for c'
    using other that by blast
  have t': "ht_terminated ht ?h'"
    unfolding ht_terminated_def
  proof (intro allI impI)
    fix c' assume a: "c' < ht_table_size ht \<and> occupied ht ?h' c'"
    show "?h' (bucket_addr ht c' + (ht_max_key_length ht - 1)) = 0"
    proof (cases "c' = ?c")
      case True
      then show ?thesis using ff(3) by simp
    next
      case False
      then show ?thesis using other [of c'] a tmd by (simp add: ht_terminated_def)
    qed
  qed
  have fresh_home: "home ht ?h' ?c = ?ix"
    using ff(2) by (simp add: home_def hash_function_cstr)
  have before_occ: "occupied ht h (probe_index ht ?ix k)" if "k < j" for k
    using before that by (simp add: put_stops_def occupied_def)
  have c': "ht_chained ht ?h'"
    unfolding ht_chained_def
  proof (intro allI impI)
    fix c' assume a: "c' < ht_table_size ht \<and> occupied ht ?h' c'"
    show "\<exists>j. j < ht_table_size ht \<and> probe_index ht (home ht ?h' c') j = c' \<and>
               (\<forall>k. k < j \<longrightarrow> occupied ht ?h' (probe_index ht (home ht ?h' c') k))"
    proof (cases "occupied ht h c'")
      case True
      then have hm: "home ht ?h' c' = home ht h c'" using mono a by (simp add: home_def)
      from chain a True obtain j' where j': "j' < ht_table_size ht"
        "probe_index ht (home ht h c') j' = c'"
        "\<forall>k. k < j' \<longrightarrow> occupied ht h (probe_index ht (home ht h c') k)"
        unfolding ht_chained_def by blast
      have "\<forall>k. k < j' \<longrightarrow> occupied ht ?h' (probe_index ht (home ht h c') k)"
        using j'(3) mono probe_index_less [OF wf] by blast
      then show ?thesis using j' hm by auto
    next
      case False
      then have eq: "c' = ?c" using new a by blast
      have "\<forall>k. k < j \<longrightarrow> occupied ht ?h' (probe_index ht ?ix k)"
        using before_occ mono probe_index_less [OF wf] by blast
      then show ?thesis using j eq fresh_home by auto
    qed
  qed
  have clash: False
    if c2: "c2 < ht_table_size ht" "c2 \<noteq> ?c" "occupied ht h c2" "bucket_key ht h c2 = cstr key"
      and free: "\<not> occupied ht h ?c" for c2
  proof -
    have hm: "home ht h c2 = ?ix" using c2(4) by (simp add: home_def hash_function_cstr)
    from chain c2(1,3) obtain j2 where j2: "j2 < ht_table_size ht"
      "probe_index ht (home ht h c2) j2 = c2"
      "\<forall>k. k < j2 \<longrightarrow> occupied ht h (probe_index ht (home ht h c2) k)"
      unfolding ht_chained_def by blast
    consider "j2 < j" | "j2 = j" | "j < j2" by (rule linorder_cases)
    then show False
    proof cases
      case 1
      then have "\<not> put_stops ht h key c2" using before j2(2) hm by auto
      then have "strcmp h (bucket_addr ht c2) key \<noteq> 0" by (simp add: put_stops_def)
      moreover have "h (bucket_addr ht c2 + (ht_max_key_length ht - 1)) = 0"
        using tmd c2(1,3) by (simp add: ht_terminated_def)
      ultimately show False using bucket_key_strcmp [OF wf] c2(4) by simp
    next
      case 2
      then show False using j2(2) hm c2(2) by simp
    next
      case 3
      then have "occupied ht h (probe_index ht ?ix j)" using j2(3) hm by simp
      then show False using free by simp
    qed
  qed
  have d': "ht_distinct ht ?h'"
    unfolding ht_distinct_def
  proof (intro allI impI)
    fix c1 c2
    assume a: "c1 < ht_table_size ht \<and> c2 < ht_table_size ht \<and> c1 \<noteq> c2 \<and>
               occupied ht ?h' c1 \<and> occupied ht ?h' c2"
    show "bucket_key ht ?h' c1 \<noteq> bucket_key ht ?h' c2"
    proof (cases "occupied ht h c1 \<and> occupied ht h c2")
      case True
      then have "bucket_key ht ?h' c1 = bucket_key ht h c1" "bucket_key ht ?h' c2 = bucket_key ht h c2"
        using mono a by simp_all
      then show ?thesis using dist a True unfolding ht_distinct_def by simp
    next
      case False
      then consider "c1 = ?c" "\<not> occupied ht h ?c" | "c2 = ?c" "\<not> occupied ht h ?c"
        using new a by blast
      then show ?thesis
      proof cases
        case 1
        then have c2: "c2 \<noteq> ?c" "occupied ht h c2" using a new by auto
        then have "bucket_key ht ?h' c2 = bucket_key ht h c2" using other a by simp
        then show ?thesis using clash [of c2] c2 a 1 ff(2) by auto
      next
        case 2
        then have c1: "c1 \<noteq> ?c" "occupied ht h c1" using a new by auto
        then have "bucket_key ht ?h' c1 = bucket_key ht h c1" using other a by simp
        then show ?thesis using clash [of c1] c1 a 2 ff(2) by auto
      qed
    qed
  qed
  show ?thesis using t' c' d' by (simp add: ht_inv_def)
qed

lemma ht_inv_put:
  assumes wf: "ht_wf ht" and inv: "ht_inv ht h"
    and len: "length (cstr key) < unat (ht_max_key_length ht)"
    and put: "ht_put ht h key val = Inr (ok, h')"
  shows "ht_inv ht h'"
  using ht_put_result [OF put] inv ht_inv_fill_bucket [OF wf inv len] by auto

section \<open>FixedMap: sequences of operations\<close>

text \<open>The operations a caller applies to an initialised table, and the store they leave.
  A run stops at the first fault.  An operation has valid inputs when its key has fewer
  than \<open>max_key_length\<close> characters and, for \<open>put\<close>, its value has exactly
  \<open>value_size\<close> bytes.\<close>

datatype ht_op = Put "byte list" "byte list" | Get "byte list" | Remove "byte list"
  | Contains "byte list"

fun ht_step :: "fixed_hash_table_t \<Rightarrow> heap \<Rightarrow> ht_op \<Rightarrow> fault + heap" where
  "ht_step ht h (Put key val) =
     (case ht_put ht h key val of Inl e \<Rightarrow> Inl e | Inr (ok, h') \<Rightarrow> Inr h')"
| "ht_step ht h (Get key) =
     (case ht_get ht h key of Inl e \<Rightarrow> Inl e | Inr r \<Rightarrow> Inr h)"
| "ht_step ht h (Remove key) =
     (case ht_remove ht h key of Inl e \<Rightarrow> Inl e | Inr (ok, h') \<Rightarrow> Inr h')"
| "ht_step ht h (Contains key) =
     (case ht_contains ht h key of Inl e \<Rightarrow> Inl e | Inr r \<Rightarrow> Inr h)"

fun ht_run :: "fixed_hash_table_t \<Rightarrow> heap \<Rightarrow> ht_op list \<Rightarrow> fault + heap" where
  "ht_run ht h [] = Inr h"
| "ht_run ht h (x # xs) =
     (case ht_step ht h x of Inl e \<Rightarrow> Inl e | Inr h' \<Rightarrow> ht_run ht h' xs)"

fun valid_op :: "fixed_hash_table_t \<Rightarrow> ht_op \<Rightarrow> bool" where
  "valid_op ht (Put key val) \<longleftrightarrow>
     length (cstr key) < unat (ht_max_key_length ht) \<and> length val = unat (ht_value_size ht)"
| "valid_op ht (Get key) \<longleftrightarrow> length (cstr key) < unat (ht_max_key_length ht)"
| "valid_op ht (Remove key) \<longleftrightarrow> length (cstr key) < unat (ht_max_key_length ht)"
| "valid_op ht (Contains key) \<longleftrightarrow> length (cstr key) < unat (ht_max_key_length ht)"

fun is_put :: "ht_op \<Rightarrow> bool" where
  "is_put (Put key val) = True"
| "is_put x = False"

fun is_remove :: "ht_op \<Rightarrow> bool" where
  "is_remove (Remove key) = True"
| "is_remove x = False"

fun no_put_after_remove :: "ht_op list \<Rightarrow> bool" where
  "no_put_after_remove [] = True"
| "no_put_after_remove (x # xs) =
     ((if is_remove x then list_all (\<lambda>y. \<not> is_put y) xs else True) \<and> no_put_after_remove xs)"

text \<open>The keys of the occupied buckets, in bucket order, are pairwise different.\<close>

definition ht_keys_distinct :: "fixed_hash_table_t \<Rightarrow> heap \<Rightarrow> bool" where
  "ht_keys_distinct ht h =
     distinct (map (\<lambda>i. bucket_key ht h (of_nat i))
                 (filter (\<lambda>i. occupied ht h (of_nat i)) [0..<unat (ht_table_size ht)]))"

lemma ht_distinct_keys_distinct:
  assumes "ht_distinct ht h"
  shows "ht_keys_distinct ht h"
proof -
  let ?xs = "filter (\<lambda>i. occupied ht h (of_nat i)) [0..<unat (ht_table_size ht)]"
  have "inj_on (\<lambda>i. bucket_key ht h (of_nat i)) (set ?xs)"
  proof (rule inj_onI)
    fix i i'
    assume i: "i \<in> set ?xs" and i': "i' \<in> set ?xs"
      and eq: "bucket_key ht h (of_nat i) = bucket_key ht h (of_nat i')"
    have b: "i < unat (ht_table_size ht)" "i' < unat (ht_table_size ht)"
      "occupied ht h (of_nat i)" "occupied ht h (of_nat i')" using i i' by simp_all
    have lt: "(of_nat i :: 64 word) < ht_table_size ht" "(of_nat i' :: 64 word) < ht_table_size ht"
      using b(1,2) by (simp_all add: of_nat_less_word)
    have "(of_nat i :: 64 word) = of_nat i'"
      using assms lt b(3,4) eq unfolding ht_distinct_def by blast
    then have "unat (of_nat i :: 64 word) = unat (of_nat i' :: 64 word)" by simp
    then show "i = i'"
      using b(1,2) unat_lt_2p64 [of "ht_table_size ht"] by (simp add: unat_of_nat_64)
  qed
  then show ?thesis by (simp add: ht_keys_distinct_def distinct_map)
qed

lemma key_byte_not_flag:
  assumes wf: "ht_wf ht" and c: "c < ht_table_size ht" and c': "c' < ht_table_size ht"
    and i: "i < unat (ht_max_key_length ht)"
  shows "bucket_addr ht c' + of_nat i \<noteq> occupied_flag ht c"
proof (cases "c' = c")
  case True
  let ?m = "ht_max_key_length ht" and ?v = "ht_value_size ht"
  have "unat (?m + ?v) = unat ?m + unat ?v"
    using ht_wf_bucket_bound [OF wf] by (simp add: unat_add_no_wrap)
  moreover have "unat (of_nat i :: 64 word) = i"
    using i unat_lt_2p64 [of ?m] by (simp add: unat_of_nat_64)
  ultimately have "(of_nat i :: 64 word) \<noteq> ?m + ?v" using i by auto
  then show ?thesis using True by (simp add: occupied_flag_def add.assoc)
next
  case False
  have "(bucket_addr ht c' + of_nat i) - bucket_addr ht c' < ht_bucket_size ht"
    using wf i by (rule key_byte_in_bucket)
  then have "\<not> (bucket_addr ht c' + of_nat i) - bucket_addr ht c < ht_bucket_size ht"
    using bucket_disjoint [OF wf c' c False] by blast
  then show ?thesis using flag_in_bucket [OF wf, of c] by auto
qed

lemma ht_distinct_clear_flag:
  assumes wf: "ht_wf ht" and c: "c < ht_table_size ht" and d: "ht_distinct ht h"
  shows "ht_distinct ht (h(occupied_flag ht c := 0))"
proof -
  let ?h' = "h(occupied_flag ht c := 0)"
  have occ: "occupied ht h c'" if "occupied ht ?h' c'" for c'
    using that by (auto simp: occupied_def split: if_splits)
  have key: "bucket_key ht ?h' c' = bucket_key ht h c'" if "c' < ht_table_size ht" for c'
  proof -
    have "read_bytes ?h' (bucket_addr ht c') (unat (ht_max_key_length ht)) =
          read_bytes h (bucket_addr ht c') (unat (ht_max_key_length ht))"
      using key_byte_not_flag [OF wf c that] by (simp add: read_bytes_def)
    then show ?thesis by (simp add: bucket_key_def)
  qed
  show ?thesis
    using d occ key unfolding ht_distinct_def by metis
qed

lemma ht_step_no_put:
  assumes wf: "ht_wf ht" and d: "ht_distinct ht h" and np: "\<not> is_put x"
    and st: "ht_step ht h x = Inr h'"
  shows "ht_distinct ht h'"
proof (cases x)
  case (Put key val)
  then show ?thesis using np by simp
next
  case (Get key)
  then show ?thesis using st d by (auto split: sum.splits)
next
  case (Remove key)
  then obtain ok where "ht_remove ht h key = Inr (ok, h')"
    using st by (auto split: sum.splits)
  from ht_remove_result [OF this] show ?thesis
    using d ht_distinct_clear_flag [OF wf] by auto
next
  case (Contains key)
  then show ?thesis using st d by (auto split: sum.splits)
qed

lemma ht_run_no_put:
  assumes wf: "ht_wf ht"
  shows "ht_distinct ht h \<Longrightarrow> list_all (\<lambda>y. \<not> is_put y) xs \<Longrightarrow> ht_run ht h xs = Inr h' \<Longrightarrow>
         ht_distinct ht h'"
proof (induction xs arbitrary: h)
  case Nil
  then show ?case by simp
next
  case (Cons x xs)
  from Cons.prems(3) obtain h1 where h1: "ht_step ht h x = Inr h1" "ht_run ht h1 xs = Inr h'"
    by (auto split: sum.splits)
  have "\<not> is_put x" using Cons.prems(2) by simp
  then have "ht_distinct ht h1"
    using Cons.prems(1) h1(1) ht_step_no_put [OF wf] by blast
  then show ?case using Cons.IH h1(2) Cons.prems(2) by simp
qed

lemma ht_run_inv:
  assumes wf: "ht_wf ht"
  shows "ht_inv ht h \<Longrightarrow> list_all (valid_op ht) xs \<Longrightarrow> no_put_after_remove xs \<Longrightarrow>
         ht_run ht h xs = Inr h' \<Longrightarrow> ht_distinct ht h'"
proof (induction xs arbitrary: h)
  case Nil
  then show ?case by (simp add: ht_inv_def)
next
  case (Cons x xs)
  from Cons.prems(4) obtain h1 where h1: "ht_step ht h x = Inr h1" "ht_run ht h1 xs = Inr h'"
    by (auto split: sum.splits)
  have v: "list_all (valid_op ht) xs" and n: "no_put_after_remove xs"
    using Cons.prems(2,3) by simp_all
  show ?case
  proof (cases x)
    case (Put key val)
    then obtain ok where "ht_put ht h key val = Inr (ok, h1)"
      using h1(1) by (auto split: sum.splits)
    moreover have "length (cstr key) < unat (ht_max_key_length ht)"
      using Cons.prems(2) Put by simp
    ultimately have "ht_inv ht h1" using ht_inv_put [OF wf Cons.prems(1)] by blast
    then show ?thesis using Cons.IH v n h1(2) by blast
  next
    case (Get key)
    then have "h1 = h" using h1(1) by (auto split: sum.splits)
    then show ?thesis using Cons.IH Cons.prems(1) v n h1(2) by blast
  next
    case (Contains key)
    then have "h1 = h" using h1(1) by (auto split: sum.splits)
    then show ?thesis using Cons.IH Cons.prems(1) v n h1(2) by blast
  next
    case (Remove key)
    then have np: "list_all (\<lambda>y. \<not> is_put y) xs" using Cons.prems(3) by simp
    have "ht_distinct ht h" using Cons.prems(1) by (simp add: ht_inv_def)
    moreover have "\<not> is_put x" by (simp add: Remove)
    ultimately have "ht_distinct ht h1"
      using h1(1) ht_step_no_put [OF wf] by blast
    then show ?thesis using ht_run_no_put [OF wf _ np h1(2)] by blast
  qed
qed

text \<open>\<open>ht_init\<close> leaves every bucket unoccupied.\<close>

lemma ht_init_unoccupied:
  assumes init: "ht_init memory table_size max_key_length value_size h = (ht, h0)"
    and wf: "ht_wf ht" and c: "c < ht_table_size ht"
  shows "\<not> occupied ht h0 c"
proof -
  let ?b = "ht_bucket_size ht" and ?m = "ht_max_key_length ht" and ?v = "ht_value_size ht"
  have h0: "h0 = memset h (ht_memory ht) 0 (ht_table_size ht * ?b)"
    using init by (auto simp: ht_init_def Let_def)
  have mv: "unat (?m + ?v) = unat ?m + unat ?v"
    using ht_wf_bucket_bound [OF wf] by (simp add: unat_add_no_wrap)
  have B: "unat ?b = unat ?m + unat ?v + 1" using wf by (simp add: ht_wf_def)
  have off: "?m + ?v < ?b" using mv B by (simp add: word_less_nat_alt)
  have "unat (c * ?b + (?m + ?v)) = unat c * unat ?b + unat (?m + ?v)"
    using wf c off by (rule bucket_offset_unat)
  moreover have "unat (ht_table_size ht * ?b) = unat (ht_table_size ht) * unat ?b"
    using ht_wf_region_bound [OF wf] by (rule unat_mult_no_wrap)
  moreover have "unat c * unat ?b + unat ?b \<le> unat (ht_table_size ht) * unat ?b"
  proof -
    have "Suc (unat c) \<le> unat (ht_table_size ht)" using c by (simp add: word_less_nat_alt)
    then have "Suc (unat c) * unat ?b \<le> unat (ht_table_size ht) * unat ?b"
      by (rule mult_le_mono1)
    then show ?thesis by simp
  qed
  ultimately have "c * ?b + (?m + ?v) < ht_table_size ht * ?b"
    using mv B by (simp add: word_less_nat_alt)
  moreover have "occupied_flag ht c - ht_memory ht = c * ?b + (?m + ?v)"
    by (simp add: occupied_flag_def bucket_addr_def add.assoc)
  ultimately show ?thesis by (simp add: occupied_def h0 memset_def)
qed

lemma ht_init_inv:
  assumes "ht_init memory table_size max_key_length value_size h = (ht, h0)" and "ht_wf ht"
  shows "ht_inv ht h0"
  using ht_init_unoccupied [OF assms]
  unfolding ht_inv_def ht_terminated_def ht_chained_def ht_distinct_def by blast

text \<open>Where the keys do stay distinct.  Start from \<open>ht_init\<close> of a well-formed table
  and apply any sequence
  of \<open>put\<close>, \<open>get\<close>, \<open>remove\<close> and \<open>contains\<close> with valid inputs in which no
  \<open>put\<close> comes after a \<open>remove\<close>: in the store the sequence leaves, no two occupied
  buckets hold an equal stored key.\<close>

theorem ht_occupied_keys_distinct:
  assumes "ht_init memory table_size max_key_length value_size h = (ht, h0)"
    and "ht_wf ht"
    and "list_all (valid_op ht) xs"
    and "no_put_after_remove xs"
    and "ht_run ht h0 xs = Inr h'"
  shows "ht_keys_distinct ht h'"
proof -
  have "ht_inv ht h0" using assms(1,2) by (rule ht_init_inv)
  then have "ht_distinct ht h'" using ht_run_inv [OF assms(2) _ assms(3,4,5)] by blast
  then show ?thesis by (rule ht_distinct_keys_distinct)
qed

section \<open>FixedMap: a key stored twice\<close>

text \<open>On the table of two buckets holding \<open>"c"\<close> in bucket 0 behind the removed
  \<open>"a"\<close>, \<open>put("c", 3)\<close> finds bucket 1 unoccupied and fills it.\<close>

definition ex_h4 :: heap where
  "ex_h4 = fill_bucket ex_ht ex_h3 1 [99] [3]"

lemma ex_put_c_again: "ht_put ex_ht ex_h3 [99] [3] = Inr (True, ex_h4)"
  by (simp add: ht_put_def ht_put_loop.simps ex_h4_def)

lemma ex_h4_simps [simp]:
  "ex_h4 0x1000 = 99" "ex_h4 0x1001 = 0" "ex_h4 0x1002 = 2" "ex_h4 0x1003 = 1"
  "ex_h4 0x1004 = 99" "ex_h4 0x1005 = 0" "ex_h4 0x1006 = 3" "ex_h4 0x1007 = 1"
  by (simp_all add: ex_h4_def fill_bucket_eval)

lemma ex_init: "ht_init 0x1000 2 2 1 (\<lambda>_. 0xAA) = (ex_ht, ex_h0)"
  by (simp add: ex_ht_def ex_h0_def)

lemma ex_get_c: "ht_get ex_ht ex_h2 [99] = Inr (Some [2])"
  by (simp add: ht_get_def ht_get_loop.simps read_bytes_def)

lemma ex_contains_c: "ht_contains ex_ht ex_h3 [99] = Inr False"
  by (simp add: ht_contains_def ht_get_def ht_get_loop.simps)

text \<open>C7.  The claim says that in every table reached from \<open>ht_init\<close> by operations
  with valid inputs no two occupied buckets hold an equal stored key.  From \<open>ht_init\<close>,
  the valid operations \<open>put("a", 1)\<close>, \<open>put("c", 2)\<close>, \<open>remove("a")\<close>,
  \<open>put("c", 3)\<close> leave both buckets occupied and both holding the key \<open>"c"\<close>:
  \<open>ht_remove\<close> has cleared the flag of the bucket in front of \<open>"c"\<close>, and \<open>ht_put\<close>,
  which is to update a key that is present, stops at that bucket and never reaches the
  one that holds \<open>"c"\<close>.\<close>

theorem ht_key_stored_twice:
  "ht_init 0x1000 2 2 1 (\<lambda>_. 0xAA) = (ex_ht, ex_h0) \<and> ht_wf ex_ht \<and>
   list_all (valid_op ex_ht) [Put [97] [1], Put [99] [2], Remove [97], Put [99] [3]] \<and>
   ht_run ex_ht ex_h0 [Put [97] [1], Put [99] [2], Remove [97], Put [99] [3]] = Inr ex_h4 \<and>
   occupied ex_ht ex_h4 0 \<and> occupied ex_ht ex_h4 1 \<and>
   bucket_key ex_ht ex_h4 0 = [99] \<and> bucket_key ex_ht ex_h4 1 = [99] \<and>
   \<not> ht_keys_distinct ex_ht ex_h4"
proof -
  have v: "list_all (valid_op ex_ht) [Put [97] [1], Put [99] [2], Remove [97], Put [99] [3]]"
    by (simp add: cstr_def)
  have r: "ht_run ex_ht ex_h0 [Put [97] [1], Put [99] [2], Remove [97], Put [99] [3]] = Inr ex_h4"
    by (simp add: ex_put_a ex_put_c ex_remove_a ex_put_c_again)
  have o: "occupied ex_ht ex_h4 0" "occupied ex_ht ex_h4 1"
    by (simp_all add: occupied_def)
  have k: "bucket_key ex_ht ex_h4 0 = [99]" "bucket_key ex_ht ex_h4 1 = [99]"
    by (simp_all add: bucket_key_def read_bytes_def cstr_def upt_rec)
  have "\<not> ht_keys_distinct ex_ht ex_h4"
    using o k by (simp add: ht_keys_distinct_def upt_rec)
  then show ?thesis using ex_init ex_wf v r o k by simp
qed

text \<open>Distinct keys at a concrete run: \<open>put("a", 1)\<close>, \<open>put("c", 2)\<close>,
  \<open>get("c")\<close>, \<open>remove("a")\<close>, \<open>contains("c")\<close>.\<close>

theorem ht_occupied_keys_distinct_witness:
  "ht_init 0x1000 2 2 1 (\<lambda>_. 0xAA) = (ex_ht, ex_h0) \<and> ht_wf ex_ht \<and>
   list_all (valid_op ex_ht) [Put [97] [1], Put [99] [2], Get [99], Remove [97], Contains [99]] \<and>
   no_put_after_remove [Put [97] [1], Put [99] [2], Get [99], Remove [97], Contains [99]] \<and>
   ht_run ex_ht ex_h0 [Put [97] [1], Put [99] [2], Get [99], Remove [97], Contains [99]] = Inr ex_h3 \<and>
   ht_keys_distinct ex_ht ex_h3"
proof -
  let ?xs = "[Put [97] [1], Put [99] [2], Get [99], Remove [97], Contains [99]]"
  have v: "list_all (valid_op ex_ht) ?xs" by (simp add: cstr_def)
  have n: "no_put_after_remove ?xs" by simp
  have r: "ht_run ex_ht ex_h0 ?xs = Inr ex_h3"
    by (simp add: ex_put_a ex_put_c ex_get_c ex_remove_a ex_contains_c)
  show ?thesis
    using ex_init ex_wf v n r ht_occupied_keys_distinct [OF ex_init ex_wf v n r] by blast
qed

end
